theory Spec2Isabelle
  imports Complex_Main "HOL-Library.Char_ord" "HOL-Library.List_Lexorder"
begin

section \<open>TF-IDF similarity scores: a shallow embedding of main.cpp\<close>

text \<open>
  The program normalises four documents, counts their words, computes the term frequency
  (TF), the inverse document frequency (IDF) and their product for every word of the first
  document, and prints the id of the document with the largest summed TF-IDF.

  Conventions of the embedding:
  \<^item> a \<open>std::string\<close> is a \<open>string\<close> (a list of 8-bit characters; it may hold the
    character NUL);
  \<^item> a \<open>std::map<string, V>\<close> is an association list kept in ascending key order, the
    order in which the C++ iterator visits it; strings are compared bytewise and
    lexicographically, as \<open>std::string\<close> compares them;
  \<^item> a C++ \<open>int\<close> is an unbounded \<open>int\<close>: the counters of the program count words
    and documents, and overflowing one (undefined behaviour in C++) takes more than
    \<open>2^31\<close> words;
  \<^item> a \<open>double\<close> is a value of the type \<open>dbl\<close> below: a real number, an infinity or
    NaN. The product and the sum of doubles are rounded to the nearest double, ties to
    even, with overflow to an infinity and underflow to zero, and the infinities and NaN
    follow IEEE 754; the quotient of two counters and the logarithm are kept as exact real
    numbers that stand for the nearest double, and are rounded by the product that reads
    them.
\<close>

subsection \<open>Normalisation: removePunctuation\<close>

text \<open>
  \<open>::tolower\<close> in the "C" locale (the program never calls \<open>setlocale\<close>): the letters
  \<open>A\<close> to \<open>Z\<close> go to \<open>a\<close> to \<open>z\<close>, every other character stays.
\<close>

definition tolower :: "char \<Rightarrow> char" where
  "tolower c =
     (if CHR ''A'' \<le> c \<and> c \<le> CHR ''Z'' then char_of (of_char c + (32::nat)) else c)"

text \<open>
  \<open>char punctuation[] = ".,;:!?\"\n"\<close>: the array holds the eight characters of the
  literal and its terminating NUL, nine in all, and \<open>sizeof(punctuation)\<close> is 9.
\<close>

definition punctuation :: "char list" where
  "punctuation =
     [CHR ''.'', CHR '','', CHR '';'', CHR '':'', CHR ''!'', CHR ''?'', CHR 0x22, CHR 0x0A,
      CHR 0x00]"

text \<open>\<open>std::replace(first, last, old, new)\<close> on the whole string.\<close>

definition replace :: "char \<Rightarrow> char \<Rightarrow> string \<Rightarrow> string" where
  "replace old new s = map (\<lambda>c. if c = old then new else c) s"

text \<open>
  \<open>removePunctuation\<close>: lowercase the input, then for \<open>i = 0 .. sizeof(punctuation) - 1\<close>
  replace \<open>punctuation[i]\<close> by a space.
\<close>

definition removePunctuation :: "string \<Rightarrow> string" where
  "removePunctuation input =
     foldl (\<lambda>s p. replace p (CHR '' '') s) (map tolower input) punctuation"

subsection \<open>Maps: std::map with string keys\<close>

text \<open>
  The entries of a \<open>std::map<string, V>\<close>, in the order of its iterator. \<open>lookup\<close> is
  the value read by \<open>m[k]\<close>: the stored value, or the value-initialised \<open>V\<close> (zero) when
  the key is absent. In C++ reading \<open>m[k]\<close> also inserts the absent key with that zero;
  the program does so only on maps it never iterates afterwards (local maps and by-value
  copies), and a later read of the key gives zero either way, so the insertion is not
  modelled. \<open>store\<close> is the assignment \<open>m[k] = v\<close>.
\<close>

type_synonym 'v smap = "(string \<times> 'v) list"

fun lookup :: "('v::zero) smap \<Rightarrow> string \<Rightarrow> 'v" where
  "lookup [] k = 0"
| "lookup ((k', v) # m) k = (if k = k' then v else lookup m k)"

fun store :: "'v smap \<Rightarrow> string \<Rightarrow> 'v \<Rightarrow> 'v smap" where
  "store [] k v = [(k, v)]"
| "store ((k', v') # m) k v =
     (if k = k' then (k, v) # m
      else if k < k' then (k, v) # (k', v') # m
      else (k', v') # store m k v)"

subsection \<open>Tokenisation and word counts: getUniqueWords\<close>

text \<open>
  The words delivered by the loop \<open>while (getline(sentence, word, ' '))\<close>: the first
  argument is what is left of the stream, the second the characters of the current word
  read so far. A space ends the current word (which may be empty); at the end of the
  stream a last word is delivered only if it has at least one character, since
  \<open>getline\<close> fails when it extracts nothing.
\<close>

fun getline_all :: "string \<Rightarrow> string \<Rightarrow> string list" where
  "getline_all [] word = (if word = [] then [] else [word])"
| "getline_all (c # cs) word =
     (if c = CHR '' '' then word # getline_all cs [] else getline_all cs (word @ [c]))"

text \<open>The body of the loop: empty words are skipped, the others counted.\<close>

definition addWord :: "int smap \<Rightarrow> string \<Rightarrow> int smap" where
  "addWord mString word =
     (if word \<noteq> [] then
        (if lookup mString word = 0 then store mString word 1
         else store mString word (lookup mString word + 1))
      else mString)"

definition getUniqueWords :: "string \<Rightarrow> int smap" where
  "getUniqueWords text = foldl addWord [] (getline_all (removePunctuation text) [])"

subsection \<open>Doubles\<close>

text \<open>
  A \<open>double\<close>: a finite value, \<open>+inf\<close>, \<open>-inf\<close> or NaN. The zero of the model stands for
  the positive zero; the only divisors of the program are converted counters, which are
  never the negative zero.

  A finite double is a real number of the binary64 format. \<open>Fin x\<close> with any other real
  \<open>x\<close> stands for the double nearest to \<open>x\<close>: the quotient of \<open>ddiv\<close> and the logarithm
  of \<open>dlog\<close> are kept exact and stand for their correctly rounded values (the logarithm
  is taken of the exact quotient), and the
  product \<open>dmul\<close> and the sum \<open>dadd\<close>, which consume them, read their operands as doubles
  (\<open>as_double\<close>) and round their exact result (\<open>fl\<close>), as IEEE 754 arithmetic does: to
  the nearest double, ties to the even significand, beyond the largest double to an
  infinity, below the smallest subnormal to zero.
\<close>

datatype dbl = Fin real | PInf | NInf | NaN

instantiation dbl :: zero
begin

definition zero_dbl :: dbl where
  "zero_dbl = Fin 0"

instance ..

end

text \<open>Rounding a real to the nearest integer, ties to the even one.\<close>

definition rhe :: "real \<Rightarrow> int" where
  "rhe y =
     (let n = \<lfloor>y\<rfloor>; r = y - of_int n
      in if r < 1 / 2 then n else if 1 / 2 < r then n + 1 else if even n then n else n + 1)"

text \<open>
  The binary exponent of \<open>a >= 0\<close>, kept between \<open>-1022\<close> (the exponent of the subnormal
  numbers) and \<open>1024\<close>: the number of halvings that bring \<open>a >= 1\<close> below 2, or of
  doublings that bring \<open>a < 1\<close> to 1 or above.
\<close>

fun halvings :: "nat \<Rightarrow> real \<Rightarrow> nat" where
  "halvings 0 a = 0"
| "halvings (Suc n) a = (if a < 2 then 0 else Suc (halvings n (a / 2)))"

fun doublings :: "nat \<Rightarrow> real \<Rightarrow> nat" where
  "doublings 0 a = 0"
| "doublings (Suc n) a = (if 1 \<le> a then 0 else Suc (doublings n (2 * a)))"

definition expo :: "real \<Rightarrow> int" where
  "expo a = (if 1 \<le> a then int (halvings 1024 a) else - int (doublings 1022 a))"

text \<open>
  The spacing of the doubles around \<open>a\<close>: 52 binary places below the exponent, and
  \<open>2^-1074\<close> in the subnormal range.
\<close>

definition quantum :: "real \<Rightarrow> real" where
  "quantum a = 2 powi (expo a - 52)"

text \<open>
  The real number nearest to \<open>x\<close> on the grid of the doubles, ties to even. At and above
  \<open>2^1024\<close> in absolute value it is no double: \<open>fl\<close> gives the infinity there.
\<close>

definition rd :: "real \<Rightarrow> real" where
  "rd x = sgn x * (of_int (rhe (\<bar>x\<bar> / quantum \<bar>x\<bar>)) * quantum \<bar>x\<bar>)"

definition fl :: "real \<Rightarrow> dbl" where
  "fl x =
     (let r = rd x
      in if 2 ^ 1024 \<le> r then PInf else if r \<le> - (2 ^ 1024) then NInf else Fin r)"

text \<open>The double that a value stands for.\<close>

fun as_double :: "dbl \<Rightarrow> dbl" where
  "as_double (Fin x) = fl x"
| "as_double d = d"

text \<open>The conversion of an \<open>int\<close> to \<open>double\<close>.\<close>

definition of_count :: "int \<Rightarrow> dbl" where
  "of_count n = Fin (of_int n)"

text \<open>A double used as a condition: true unless it is zero (NaN is true).\<close>

definition truthy :: "dbl \<Rightarrow> bool" where
  "truthy x = (x \<noteq> Fin 0)"

fun ddiv :: "dbl \<Rightarrow> dbl \<Rightarrow> dbl" where
  "ddiv NaN y = NaN"
| "ddiv x NaN = NaN"
| "ddiv (Fin a) (Fin b) =
     (if b \<noteq> 0 then Fin (a / b) else if a = 0 then NaN else if 0 < a then PInf else NInf)"
| "ddiv (Fin a) y = Fin 0"
| "ddiv PInf (Fin b) = (if 0 \<le> b then PInf else NInf)"
| "ddiv NInf (Fin b) = (if 0 \<le> b then NInf else PInf)"
| "ddiv x y = NaN"

text \<open>The product \<open>x * y\<close> of two doubles: the exact product, rounded.\<close>

fun mul_doubles :: "dbl \<Rightarrow> dbl \<Rightarrow> dbl" where
  "mul_doubles NaN y = NaN"
| "mul_doubles x NaN = NaN"
| "mul_doubles (Fin a) (Fin b) = fl (a * b)"
| "mul_doubles (Fin a) PInf = (if a = 0 then NaN else if 0 < a then PInf else NInf)"
| "mul_doubles (Fin a) NInf = (if a = 0 then NaN else if 0 < a then NInf else PInf)"
| "mul_doubles PInf (Fin b) = (if b = 0 then NaN else if 0 < b then PInf else NInf)"
| "mul_doubles NInf (Fin b) = (if b = 0 then NaN else if 0 < b then NInf else PInf)"
| "mul_doubles PInf PInf = PInf"
| "mul_doubles NInf NInf = PInf"
| "mul_doubles x y = NInf"

definition dmul :: "dbl \<Rightarrow> dbl \<Rightarrow> dbl" where
  "dmul x y = mul_doubles (as_double x) (as_double y)"

text \<open>The sum \<open>x + y\<close> of two doubles: the exact sum, rounded.\<close>

fun add_doubles :: "dbl \<Rightarrow> dbl \<Rightarrow> dbl" where
  "add_doubles NaN y = NaN"
| "add_doubles x NaN = NaN"
| "add_doubles (Fin a) (Fin b) = fl (a + b)"
| "add_doubles PInf NInf = NaN"
| "add_doubles NInf PInf = NaN"
| "add_doubles (Fin a) y = y"
| "add_doubles x y = x"

definition dadd :: "dbl \<Rightarrow> dbl \<Rightarrow> dbl" where
  "dadd x y = add_doubles (as_double x) (as_double y)"

text \<open>The natural logarithm \<open>log\<close> of \<open><cmath>\<close>.\<close>

fun dlog :: "dbl \<Rightarrow> dbl" where
  "dlog (Fin a) = (if 0 < a then Fin (ln a) else if a = 0 then NInf else NaN)"
| "dlog PInf = PInf"
| "dlog x = NaN"

text \<open>The comparison \<open>x >= y\<close>: false as soon as one side is NaN.\<close>

fun dge :: "dbl \<Rightarrow> dbl \<Rightarrow> bool" where
  "dge NaN y = False"
| "dge x NaN = False"
| "dge (Fin a) (Fin b) = (b \<le> a)"
| "dge PInf y = True"
| "dge x NInf = True"
| "dge x y = False"

subsection \<open>Term frequency: computeTF\<close>

text \<open>
  The array \<open>Docs\<close> and its length \<open>nDocs\<close> are one list. The body of the outer loop
  builds the row of one document: the document's own word counts, their total \<open>nWords\<close>,
  and for every reference word (in the order of the map's iterator) the count, stored as
  a double and then divided in place by \<open>nWords\<close>.
\<close>

definition computeTF_row :: "int smap \<Rightarrow> string \<Rightarrow> dbl smap" where
  "computeTF_row refWords doc =
     (let wordsD = getUniqueWords doc;
          nWords = sum_list (map snd wordsD)
      in foldl (\<lambda>currentCounts rWord.
                  let c1 = (if lookup wordsD rWord = 0 then store currentCounts rWord (Fin 0)
                            else store currentCounts rWord (of_count (lookup wordsD rWord)))
                  in store c1 rWord (ddiv (lookup c1 rWord) (of_count nWords)))
               [] (map fst refWords))"

definition computeTF :: "int smap \<Rightarrow> string list \<Rightarrow> dbl smap list" where
  "computeTF refWords Docs = map (computeTF_row refWords) Docs"

subsection \<open>Inverse document frequency: computeIDF\<close>

text \<open>
  The inner loop: \<open>nOcc\<close>, a double counter starting at 0, is incremented for every
  document whose word counts hold a non-zero count for \<open>rWord\<close>. The counter is always a
  finite whole number, so it is a \<open>real\<close> here and enters the division as \<open>Fin\<close>.
\<close>

definition nOcc :: "string \<Rightarrow> string list \<Rightarrow> real" where
  "nOcc rWord Docs =
     foldl (\<lambda>n doc. if lookup (getUniqueWords doc) rWord \<noteq> 0 then n + 1 else n) 0 Docs"

definition computeIDF :: "int smap \<Rightarrow> string list \<Rightarrow> dbl smap" where
  "computeIDF refWords Docs =
     foldl (\<lambda>counts rWord.
              store counts rWord
                (dlog (ddiv (of_count (int (length Docs))) (Fin (nOcc rWord Docs)))))
           [] (map fst refWords)"

subsection \<open>TF-IDF: computeTFIDF\<close>

definition computeTFIDF_row :: "int smap \<Rightarrow> dbl smap \<Rightarrow> dbl smap \<Rightarrow> dbl smap" where
  "computeTFIDF_row refWords tf_i idf =
     foldl (\<lambda>currentCounts rWord.
              if \<not> truthy (lookup tf_i rWord) \<or> \<not> truthy (lookup idf rWord)
              then store currentCounts rWord (Fin 0)
              else store currentCounts rWord (dmul (lookup tf_i rWord) (lookup idf rWord)))
           [] (map fst refWords)"

definition computeTFIDF :: "int smap \<Rightarrow> dbl smap list \<Rightarrow> dbl smap \<Rightarrow> dbl smap list" where
  "computeTFIDF refWords tf idf = map (\<lambda>tf_i. computeTFIDF_row refWords tf_i idf) tf"

subsection \<open>Ranking: getMostSimilarDocument\<close>

text \<open>The inner loop: the sum of the non-zero cells of one row over the reference words.\<close>

definition docSum :: "int smap \<Rightarrow> dbl smap \<Rightarrow> dbl" where
  "docSum refWords row =
     foldl (\<lambda>sum w. if truthy (lookup row w) then dadd sum (lookup row w) else sum)
           (Fin 0) (map fst refWords)"

text \<open>
  The outer loop from index \<open>i\<close> on: the rows still to visit, the index \<open>i\<close> of the first
  of them, and the running \<open>maxId\<close> and \<open>maxSum\<close>.
\<close>

fun rank_from :: "int smap \<Rightarrow> dbl smap list \<Rightarrow> int \<Rightarrow> int \<Rightarrow> dbl \<Rightarrow> int" where
  "rank_from refWords [] i maxId maxSum = maxId"
| "rank_from refWords (row # rows) i maxId maxSum =
     (let sum = docSum refWords row
      in if dge sum maxSum then rank_from refWords rows (i + 1) (i + 1) sum
         else rank_from refWords rows (i + 1) maxId maxSum)"

text \<open>The loop starts at \<open>i = 1\<close> with \<open>maxId = 0\<close> and \<open>maxSum = 0\<close>.\<close>

definition getMostSimilarDocument :: "int smap \<Rightarrow> dbl smap list \<Rightarrow> int" where
  "getMostSimilarDocument refWords tfidf = rank_from refWords (drop 1 tfidf) 1 0 (Fin 0)"

subsection \<open>The program: main\<close>

definition Docs :: "string list" where
  "Docs =
     [''I'd... like, an! apple.'',
      ''An apple a day keeps the doctor away.'',
      ''Never compare an apple to an orange.'',
      ''I prefer scikit-learn to orange.'']"

text \<open>
  The integer that \<open>main\<close> writes to standard output: the reference words are those of
  \<open>Docs[0]\<close>.
\<close>

definition main_output :: int where
  "main_output =
     (let refWords = getUniqueWords (Docs ! 0);
          tf = computeTF refWords Docs;
          idf = computeIDF refWords Docs;
          tfidf = computeTFIDF refWords tf idf
      in getMostSimilarDocument refWords tfidf)"

subsection \<open>Notions used to state the properties\<close>

text \<open>What the loop of replacements does to one character.\<close>

definition normalise_char :: "char \<Rightarrow> char" where
  "normalise_char c = (if tolower c \<in> set punctuation then CHR '' '' else tolower c)"

text \<open>The words of a document: the non-empty pieces between spaces of the normalised text.\<close>

definition words_of :: "string \<Rightarrow> string list" where
  "words_of doc = filter (\<lambda>w. w \<noteq> []) (getline_all (removePunctuation doc) [])"

text \<open>The document frequency of a word: the number of documents in which it occurs.\<close>

definition df :: "string \<Rightarrow> string list \<Rightarrow> nat" where
  "df w docs = length (filter (\<lambda>doc. w \<in> set (words_of doc)) docs)"

text \<open>
  The index \<open>j\<close> of the last maximum of a list of sums, among those that reach \<open>m\<close>:
  the sum at \<open>j\<close> compares \<open>>= m\<close>, no sum of the list is greater than it, and no later
  sum reaches it.
\<close>

definition last_max :: "dbl list \<Rightarrow> dbl \<Rightarrow> nat \<Rightarrow> bool" where
  "last_max ss m j \<longleftrightarrow>
     j < length ss \<and> dge (ss ! j) m \<and>
     (\<forall>k<length ss. dge (ss ! k) (ss ! j) \<longrightarrow> dge (ss ! j) (ss ! k)) \<and>
     (\<forall>k<length ss. j < k \<longrightarrow> \<not> dge (ss ! k) (ss ! j))"

text \<open>The rounded magnitude of \<open>a >= 0\<close>: \<open>rd\<close> without the sign.\<close>

definition mag :: "real \<Rightarrow> real" where
  "mag a = of_int (rhe (a / quantum a)) * quantum a"

text \<open>A double that is not negative: a finite value \<open>>= 0\<close>, \<open>+inf\<close> or NaN.\<close>

fun not_negative :: "dbl \<Rightarrow> bool" where
  "not_negative (Fin a) = (0 \<le> a)"
| "not_negative NInf = False"
| "not_negative x = True"

subsection \<open>Facts about rounding\<close>

lemma halvings_spec:
  "1 \<le> a \<Longrightarrow> a < 2 ^ n \<Longrightarrow> 2 ^ halvings n a \<le> a \<and> a < 2 ^ Suc (halvings n a)"
proof (induction n arbitrary: a)
  case 0
  then show ?case by simp
next
  case (Suc n)
  show ?case
  proof (cases "a < 2")
    case True
    with Suc.prems show ?thesis by simp
  next
    case False
    with Suc.prems have "1 \<le> a / 2" and "a / 2 < 2 ^ n"
      by simp_all
    from Suc.IH [OF this] False show ?thesis
      by simp
  qed
qed

lemma halvings_cap: "2 ^ n \<le> a \<Longrightarrow> halvings n a = n"
proof (induction n arbitrary: a)
  case 0
  then show ?case by simp
next
  case (Suc n)
  then have half: "2 ^ n \<le> a / 2"
    by simp
  have "(1::real) \<le> 2 ^ n"
    by simp
  with half have "\<not> a < 2"
    by linarith
  with half Suc.IH [of "a / 2"] show ?case
    by simp
qed

lemma doublings_spec:
  "0 < a \<Longrightarrow> a < 1 \<Longrightarrow> 1 \<le> a * 2 ^ n \<Longrightarrow>
     1 \<le> a * 2 ^ doublings n a \<and> a * 2 ^ doublings n a < 2"
proof (induction n arbitrary: a)
  case 0
  then show ?case by simp
next
  case (Suc n)
  show ?case
  proof (cases "1 \<le> 2 * a")
    case True
    with Suc.prems have "doublings (Suc n) a = Suc (doublings n (2 * a))"
      by simp
    moreover from True have "doublings n (2 * a) = 0"
      by (cases n) simp_all
    ultimately show ?thesis
      using True Suc.prems by simp
  next
    case False
    with Suc.prems have "0 < 2 * a" and "2 * a < 1" and "1 \<le> 2 * a * 2 ^ n"
      by (simp_all add: mult.assoc mult.left_commute)
    from Suc.IH [OF this] Suc.prems show ?thesis
      by (simp add: mult.assoc mult.left_commute)
  qed
qed

lemma doublings_cap: "a * 2 ^ n < 1 \<Longrightarrow> doublings n a = n"
proof (induction n arbitrary: a)
  case 0
  then show ?case by simp
next
  case (Suc n)
  then have "2 * a * 2 ^ n < 1"
    by (simp add: mult.assoc mult.left_commute)
  moreover have "\<not> 1 \<le> a"
  proof
    assume "1 \<le> a"
    moreover have "(1::real) \<le> 2 * 2 ^ n"
      by (simp add: numeral_2_eq_2 [symmetric] flip: power_Suc)
    ultimately have "1 * 1 \<le> a * (2 * 2 ^ n)"
      by (intro mult_mono) simp_all
    with Suc.prems show False
      by simp
  qed
  ultimately show ?case
    using Suc.IH [of "2 * a"] by simp
qed


lemma halvings_le: "halvings n a \<le> n"
  by (induction n arbitrary: a) simp_all

lemma doublings_le: "doublings n a \<le> n"
  by (induction n arbitrary: a) simp_all

lemma expo_range: "- 1022 \<le> expo a \<and> expo a \<le> 1024"
  using halvings_le [of 1024 a] doublings_le [of 1022 a] by (simp add: expo_def)

lemma expo_sub:
  assumes "a < 2 powi (- 1022)"
  shows "expo a = - 1022"
proof -
  from assms have small: "a * 2 ^ 1022 < 1"
    by (simp add: power_int_minus field_simps)
  have "\<not> 1 \<le> a"
  proof
    assume "1 \<le> a"
    then have "1 * 1 \<le> a * 2 ^ 1022"
      by (intro mult_mono) simp_all
    with small show False
      by simp
  qed
  with doublings_cap [OF small] show ?thesis
    by (simp add: expo_def)
qed

lemma expo_over:
  assumes "2 powi 1024 \<le> a"
  shows "expo a = 1024"
proof -
  from assms have big: "2 ^ 1024 \<le> a"
    by simp
  have "(1::real) \<le> 2 ^ 1024"
    by simp
  with big have "1 \<le> a"
    by linarith
  with halvings_cap [OF big] show ?thesis
    by (simp add: expo_def)
qed

lemma expo_upper:
  assumes "a < 2 powi 1024"
  shows "a < 2 powi (expo a + 1)"
proof (cases "1 \<le> a")
  case True
  from assms have "a < 2 ^ 1024"
    by simp
  from halvings_spec [OF True this] have "a < 2 ^ Suc (halvings 1024 a)"
    by simp
  also have "(2::real) ^ Suc (halvings 1024 a) = 2 powi (int (Suc (halvings 1024 a)))"
    by (simp only: power_int_of_nat)
  finally show ?thesis
    using True by (simp add: expo_def add.commute)
next
  case False
  show ?thesis
  proof (cases "0 < a \<and> 1 \<le> a * 2 ^ 1022")
    case True
    with False doublings_spec [of a 1022] have "a * 2 ^ doublings 1022 a < 2"
      by simp
    then have "a < 2 / 2 ^ doublings 1022 a"
      by (simp add: field_simps)
    also have "\<dots> = 2 powi (- int (doublings 1022 a) + 1)"
    proof -
      have "(2::real) powi (- int (doublings 1022 a) + 1) =
              2 powi (- int (doublings 1022 a)) * 2 powi 1"
        by (intro power_int_add) simp
      then show ?thesis
        by (simp add: power_int_minus field_simps)
    qed
    finally show ?thesis
      using False by (simp add: expo_def)
  next
    case False
    then have "a < 2 powi (- 1022)"
    proof (cases "0 < a")
      case True
      with False have "a * 2 ^ 1022 < 1"
        by simp
      then show ?thesis
        by (simp add: power_int_minus field_simps)
    next
      case False
      then have "a \<le> 0"
        by simp
      also have "(0::real) < 2 powi (- 1022)"
        by simp
      finally show ?thesis .
    qed
    then have "expo a = - 1022"
      by (rule expo_sub)
    moreover have "(2::real) powi (- 1022) < 2 powi (- 1022 + 1)"
      by (intro power_int_strict_increasing) simp_all
    ultimately show ?thesis
      using \<open>a < 2 powi (- 1022)\<close> by simp
  qed
qed

lemma expo_lower:
  assumes "2 powi (- 1022) \<le> a"
  shows "2 powi (expo a) \<le> a"
proof (cases "1 \<le> a")
  case True
  show ?thesis
  proof (cases "a < 2 ^ 1024")
    case True
    from halvings_spec [OF \<open>1 \<le> a\<close> this] have "2 ^ halvings 1024 a \<le> a"
      by simp
    with \<open>1 \<le> a\<close> show ?thesis
      by (simp add: expo_def)
  next
    case False
    then have "2 powi 1024 \<le> a"
      by simp
    with expo_over [OF this] show ?thesis
      by simp
  qed
next
  case False
  have "(0::real) < 2 powi (- 1022)"
    by simp
  with assms have pos: "0 < a"
    by linarith
  from assms have "1 \<le> a * 2 ^ 1022"
    by (simp add: power_int_minus field_simps)
  with pos False doublings_spec [of a 1022] have "1 \<le> a * 2 ^ doublings 1022 a"
    by simp
  then have "1 / 2 ^ doublings 1022 a \<le> a"
    by (simp add: field_simps)
  also have "1 / 2 ^ doublings 1022 a = (2::real) powi (- int (doublings 1022 a))"
    by (simp add: power_int_minus field_simps)
  finally show ?thesis
    using False by (simp add: expo_def)
qed

lemma expo_mono:
  assumes "a \<le> b"
  shows "expo a \<le> expo b"
proof (cases "a < 2 powi (- 1022)")
  case True
  with expo_sub [OF True] expo_range [of b] show ?thesis
    by simp
next
  case False
  then have lowa: "2 powi (- 1022) \<le> a"
    by simp
  show ?thesis
  proof (cases "b < 2 powi 1024")
    case True
    from expo_lower [OF lowa] assms expo_upper [OF True]
    have "(2::real) powi (expo a) < 2 powi (expo b + 1)"
      by linarith
    then have "\<not> expo b + 1 \<le> expo a"
      using power_int_increasing [of "expo b + 1" "expo a" "2::real"] by auto
    then show ?thesis
      by simp
  next
    case False
    then have "2 powi 1024 \<le> b"
      by simp
    from expo_over [OF this] expo_range [of a] show ?thesis
      by simp
  qed
qed


lemma rhe_lower: "\<lfloor>y\<rfloor> \<le> rhe y"
  by (simp add: rhe_def Let_def)

lemma rhe_upper: "rhe y \<le> \<lfloor>y\<rfloor> + 1"
  by (simp add: rhe_def Let_def)

lemma rhe_of_int: "rhe (of_int n) = n"
  by (simp add: rhe_def Let_def)

lemma rhe_mono:
  assumes "y \<le> z"
  shows "rhe y \<le> rhe z"
proof (cases "\<lfloor>y\<rfloor> = \<lfloor>z\<rfloor>")
  case True
  with assms have "y - of_int \<lfloor>y\<rfloor> \<le> z - of_int \<lfloor>z\<rfloor>"
    by simp
  with True show ?thesis
    by (auto simp add: rhe_def Let_def)
next
  case False
  with assms have "\<lfloor>y\<rfloor> < \<lfloor>z\<rfloor>"
    using floor_mono [of y z] by simp
  with rhe_upper [of y] rhe_lower [of z] show ?thesis
    by simp
qed

lemma rhe_le_int: "y \<le> of_int n \<Longrightarrow> rhe y \<le> n"
  using rhe_mono [of y "of_int n"] by (simp add: rhe_of_int)

lemma rhe_ge_int: "of_int n \<le> y \<Longrightarrow> n \<le> rhe y"
  using rhe_mono [of "of_int n" y] by (simp add: rhe_of_int)

lemma quantum_pos: "0 < quantum a"
  by (simp add: quantum_def)

lemma mag_nonneg:
  assumes "0 \<le> a"
  shows "0 \<le> mag a"
proof -
  from assms have "of_int 0 \<le> a / quantum a"
    using quantum_pos [of a] by simp
  then have "0 \<le> rhe (a / quantum a)"
    by (rule rhe_ge_int)
  with quantum_pos [of a] show ?thesis
    by (simp add: mag_def)
qed

lemma mag_0: "mag 0 = 0"
  using rhe_of_int [of 0] by (simp add: mag_def)

lemma mag_below_next_binade:
  assumes "0 \<le> a" and "a < 2 powi 1024"
  shows "mag a \<le> 2 powi (expo a + 1)"
proof -
  define P :: real where "P = 2 powi 53"
  define q where "q = quantum a"
  have P: "P = of_int (2 ^ 53)"
    by (simp add: P_def)
  have q: "0 < q"
    by (simp add: q_def quantum_pos)
  have "expo a + 1 = 53 + (expo a - 52)"
    by simp
  then have split: "(2::real) powi (expo a + 1) = P * q"
    unfolding P_def q_def quantum_def
    by (metis power_int_add [of "2::real" 53 "expo a - 52"] zero_neq_numeral)
  from expo_upper [OF assms(2)] have "a < P * q"
    by (simp only: split)
  with q have "a / q < P"
    by (simp only: pos_divide_less_eq)
  then have "a / q \<le> of_int (2 ^ 53)"
    by (simp only: P)
  then have "rhe (a / q) \<le> 2 ^ 53"
    by (rule rhe_le_int)
  then have "real_of_int (rhe (a / q)) \<le> P"
    by (simp only: P of_int_le_iff)
  with q have "real_of_int (rhe (a / q)) * q \<le> P * q"
    by (simp only: mult_le_cancel_right_pos)
  then show ?thesis
    by (simp only: split mag_def q_def)
qed

lemma mag_above_binade:
  assumes "2 powi (- 1022) \<le> a"
  shows "2 powi (expo a) \<le> mag a"
proof -
  define P :: real where "P = 2 powi 52"
  define q where "q = quantum a"
  have P: "P = of_int (2 ^ 52)"
    by (simp add: P_def)
  have q: "0 < q"
    by (simp add: q_def quantum_pos)
  have "expo a = 52 + (expo a - 52)"
    by simp
  then have split: "(2::real) powi (expo a) = P * q"
    unfolding P_def q_def quantum_def
    by (metis power_int_add [of "2::real" 52 "expo a - 52"] zero_neq_numeral)
  from expo_lower [OF assms] have "P * q \<le> a"
    by (simp only: split)
  with q have "P \<le> a / q"
    by (simp only: pos_le_divide_eq)
  then have "of_int (2 ^ 52) \<le> a / q"
    by (simp only: P)
  then have "2 ^ 52 \<le> rhe (a / q)"
    by (rule rhe_ge_int)
  then have "P \<le> real_of_int (rhe (a / q))"
    by (simp only: P of_int_le_iff)
  with q have "P * q \<le> real_of_int (rhe (a / q)) * q"
    by (simp only: mult_le_cancel_right_pos)
  then show ?thesis
    by (simp only: split mag_def q_def)
qed

lemma mag_mono:
  assumes "0 \<le> a" and "a \<le> b"
  shows "mag a \<le> mag b"
proof (cases "expo a = expo b")
  case True
  then have q: "quantum a = quantum b"
    by (simp add: quantum_def)
  from assms(2) have "a / quantum b \<le> b / quantum b"
    using quantum_pos [of b] by (simp add: divide_right_mono)
  then have "rhe (a / quantum b) \<le> rhe (b / quantum b)"
    by (rule rhe_mono)
  with q show ?thesis
    using quantum_pos [of b] by (simp add: mag_def)
next
  case False
  with expo_mono [OF assms(2)] have less: "expo a + 1 \<le> expo b"
    by simp
  have "a < 2 powi 1024"
  proof (rule ccontr)
    assume "\<not> a < 2 powi 1024"
    then have "expo a = 1024"
      by (simp add: expo_over)
    with less expo_range [of b] show False
      by simp
  qed
  with assms(1) have "mag a \<le> 2 powi (expo a + 1)"
    by (rule mag_below_next_binade)
  also from less have "(2::real) powi (expo a + 1) \<le> 2 powi (expo b)"
    by (intro power_int_increasing) simp_all
  also have "2 powi (expo b) \<le> mag b"
  proof (rule mag_above_binade, rule ccontr)
    assume "\<not> 2 powi (- 1022) \<le> b"
    then have "expo b = - 1022"
      by (simp add: expo_sub)
    with less expo_range [of a] show False
      by simp
  qed
  finally show ?thesis .
qed

lemma rd_nonneg_eq:
  assumes "0 \<le> x"
  shows "rd x = mag x"
proof (cases "x = 0")
  case True
  then show ?thesis
    by (simp add: rd_def mag_0)
next
  case False
  with assms have "0 < x"
    by simp
  then show ?thesis
    by (simp add: rd_def mag_def)
qed

lemma rd_neg_eq: "x < 0 \<Longrightarrow> rd x = - mag (- x)"
  by (simp add: rd_def mag_def)

lemma rd_0: "rd 0 = 0"
  by (simp add: rd_nonneg_eq mag_0)

lemma rd_minus: "rd (- x) = - rd x"
  by (cases "0 < x"; cases "x = 0") (simp_all add: rd_nonneg_eq rd_neg_eq mag_0)

lemma rd_nonneg: "0 \<le> x \<Longrightarrow> 0 \<le> rd x"
  by (simp add: rd_nonneg_eq mag_nonneg)

lemma rd_mono:
  assumes "x \<le> y"
  shows "rd x \<le> rd y"
proof (cases "0 \<le> x")
  case True
  with assms show ?thesis
    by (simp add: rd_nonneg_eq mag_mono)
next
  case False
  show ?thesis
  proof (cases "0 \<le> y")
    case True
    with False mag_nonneg [of "- x"] mag_nonneg [of y] show ?thesis
      by (simp add: rd_nonneg_eq rd_neg_eq)
  next
    case False
    with assms mag_mono [of "- y" "- x"] show ?thesis
      by (simp add: rd_neg_eq)
  qed
qed


lemma mag_exact:
  assumes "0 \<le> n" and "n < 2 ^ 53" and "- 1074 \<le> e"
  shows "mag (of_int n * 2 powi e) = of_int n * 2 powi e"
proof (cases "n = 0")
  case True
  then show ?thesis
    by (simp add: mag_0)
next
  case False
  define a :: real where "a = of_int n * 2 powi e"
  define qe where "qe = expo a - 52"
  have q: "quantum a = 2 powi qe"
    by (simp add: quantum_def qe_def)
  have "qe \<le> e"
  proof (cases "a < 2 powi (- 1022)")
    case True
    with assms(3) show ?thesis
      by (simp add: qe_def expo_sub)
  next
    case False
    then have "2 powi (expo a) \<le> a"
      by (simp add: expo_lower)
    also from assms(2) have "real_of_int n < of_int (2 ^ 53)"
      by (simp only: of_int_less_iff)
    then have "real_of_int n < 2 powi 53"
      by simp
    then have "a < 2 powi 53 * 2 powi e"
      unfolding a_def by (simp only: mult_less_cancel_right_pos zero_less_power_int zero_less_numeral)
    also have "(2::real) powi 53 * 2 powi e = 2 powi (53 + e)"
      by (metis power_int_add [of "2::real" 53 e] zero_neq_numeral)
    finally have "(2::real) powi (expo a) < 2 powi (53 + e)" .
    then have "\<not> 53 + e \<le> expo a"
      using power_int_increasing [of "53 + e" "expo a" "2::real"] by auto
    then show ?thesis
      by (simp add: qe_def)
  qed
  define k where "k = nat (e - qe)"
  from \<open>qe \<le> e\<close> have e: "e = int k + qe"
    by (simp add: k_def)
  have pw: "(2::real) powi e = 2 ^ k * 2 powi qe"
    unfolding e by (metis power_int_add [of "2::real" "int k" qe] power_int_of_nat zero_neq_numeral)
  have "a / 2 powi qe = of_int n * 2 ^ k"
    unfolding a_def pw by simp
  also have "\<dots> = of_int (n * 2 ^ k)"
    by simp
  finally have "rhe (a / 2 powi qe) = n * 2 ^ k"
    by (simp only: rhe_of_int)
  then have "mag a = of_int (n * 2 ^ k) * 2 powi qe"
    by (simp only: mag_def q)
  also have "\<dots> = a"
    unfolding a_def pw by simp
  finally show ?thesis
    by (simp only: a_def)
qed

lemma rd_exact:
  assumes "\<bar>m\<bar> < 2 ^ 53" and "- 1074 \<le> e"
  shows "rd (of_int m * 2 powi e) = of_int m * 2 powi e"
proof (cases "0 \<le> m")
  case True
  with assms have "mag (of_int m * 2 powi e) = of_int m * 2 powi e"
    by (intro mag_exact) simp_all
  moreover from True have "0 \<le> real_of_int m * 2 powi e"
    by simp
  ultimately show ?thesis
    by (simp only: rd_nonneg_eq)
next
  case False
  with assms have "mag (of_int (- m) * 2 powi e) = of_int (- m) * 2 powi e"
    by (intro mag_exact) simp_all
  moreover from False have "real_of_int m * 2 powi e < 0"
    by (simp add: mult_less_0_iff)
  ultimately show ?thesis
    by (simp add: rd_neg_eq)
qed

lemma rd_of_int: "\<bar>m\<bar> < 2 ^ 53 \<Longrightarrow> rd (of_int m) = of_int m"
  using rd_exact [of m 0] by simp

lemma rd_one: "rd 1 = 1"
  using rd_of_int [of 1] by simp

lemma rd_two: "rd 2 = 2"
  using rd_of_int [of 2] by simp

lemma rd_eighth: "rd (1 / 8) = 1 / 8"
  using rd_exact [of 1 "- 3"] by (simp add: power_int_minus)

lemma rhe_bounds:
  assumes "0 \<le> a" and "a < 2 powi 1024"
  shows "0 \<le> rhe (a / quantum a) \<and> rhe (a / quantum a) \<le> 2 ^ 53"
proof -
  define P :: real where "P = 2 powi 53"
  define q where "q = quantum a"
  have P: "P = of_int (2 ^ 53)"
    by (simp add: P_def)
  have q: "0 < q"
    by (simp add: q_def quantum_pos)
  have "expo a + 1 = 53 + (expo a - 52)"
    by simp
  then have split: "(2::real) powi (expo a + 1) = P * q"
    unfolding P_def q_def quantum_def
    by (metis power_int_add [of "2::real" 53 "expo a - 52"] zero_neq_numeral)
  from expo_upper [OF assms(2)] have "a < P * q"
    by (simp only: split)
  with q have "a / q < P"
    by (simp only: pos_divide_less_eq)
  then have "a / q \<le> of_int (2 ^ 53)"
    by (simp only: P)
  then have upper: "rhe (a / q) \<le> 2 ^ 53"
    by (rule rhe_le_int)
  from assms(1) q have "of_int 0 \<le> a / q"
    by simp
  then have "0 \<le> rhe (a / q)"
    by (rule rhe_ge_int)
  with upper show ?thesis
    by (simp only: q_def)
qed

lemma mag_idem:
  assumes "0 \<le> a" and "a < 2 powi 1024"
  shows "mag (mag a) = mag a"
proof -
  define n where "n = rhe (a / quantum a)"
  define qe where "qe = expo a - 52"
  have m: "mag a = of_int n * 2 powi qe"
    by (simp add: mag_def n_def qe_def quantum_def)
  from rhe_bounds [OF assms] have n: "0 \<le> n" "n \<le> 2 ^ 53"
    by (simp_all add: n_def)
  from expo_range [of a] have qe: "- 1074 \<le> qe"
    by (simp add: qe_def)
  show ?thesis
  proof (cases "n = 2 ^ 53")
    case False
    with n have "n < 2 ^ 53"
      by simp
    with n(1) qe show ?thesis
      unfolding m by (intro mag_exact)
  next
    case True
    have "(2::real) powi (qe + 1) = 2 powi qe * 2 powi 1"
      by (intro power_int_add) simp
    then have "real_of_int n * 2 powi qe = of_int (2 ^ 52) * 2 powi (qe + 1)"
      by (simp add: True)
    moreover from qe have "mag (of_int (2 ^ 52) * 2 powi (qe + 1)) = of_int (2 ^ 52) * 2 powi (qe + 1)"
      by (intro mag_exact) simp_all
    ultimately show ?thesis
      by (simp only: m)
  qed
qed

lemma rd_idem:
  assumes "\<bar>x\<bar> < 2 powi 1024"
  shows "rd (rd x) = rd x"
proof (cases "0 \<le> x")
  case True
  with assms have "mag (mag x) = mag x"
    by (intro mag_idem) simp_all
  with True mag_nonneg [of x] show ?thesis
    by (simp add: rd_nonneg_eq)
next
  case False
  with assms have idem: "mag (mag (- x)) = mag (- x)"
    by (intro mag_idem) simp_all
  from False have nonneg: "0 \<le> mag (- x)"
    by (intro mag_nonneg) simp
  from False have "rd x = - mag (- x)"
    by (simp add: rd_neg_eq)
  with idem nonneg show ?thesis
    by (simp add: rd_minus rd_nonneg_eq)
qed

lemma rd_overflow:
  assumes "2 powi 1024 \<le> \<bar>x\<bar>"
  shows "2 powi 1024 \<le> \<bar>rd x\<bar>"
proof -
  have "(2::real) powi (- 1022) \<le> 2 powi 1024"
    by (intro power_int_increasing) simp_all
  with assms have "2 powi (- 1022) \<le> \<bar>x\<bar>"
    by linarith
  then have "2 powi (expo \<bar>x\<bar>) \<le> mag \<bar>x\<bar>"
    by (rule mag_above_binade)
  with expo_over [OF assms] have "2 powi 1024 \<le> mag \<bar>x\<bar>"
    by simp
  then show ?thesis
    by (cases "0 \<le> x") (simp_all add: rd_nonneg_eq rd_neg_eq)
qed

lemma fl_Fin: "\<bar>rd x\<bar> < 2 ^ 1024 \<Longrightarrow> fl x = Fin (rd x)"
  by (auto simp add: fl_def Let_def)

lemma as_double_fl: "as_double (fl x) = fl x"
proof (cases "\<bar>rd x\<bar> < 2 ^ 1024")
  case True
  then have fin: "fl x = Fin (rd x)"
    by (rule fl_Fin)
  have "\<bar>x\<bar> < 2 powi 1024"
  proof (rule ccontr)
    assume "\<not> \<bar>x\<bar> < 2 powi 1024"
    then have "2 powi 1024 \<le> \<bar>x\<bar>"
      by simp
    then have "2 powi 1024 \<le> \<bar>rd x\<bar>"
      by (rule rd_overflow)
    with True show False
      by simp
  qed
  then have "rd (rd x) = rd x"
    by (rule rd_idem)
  with True have "fl (rd x) = Fin (rd x)"
    by (simp add: fl_Fin)
  with fin show ?thesis
    by simp
next
  case False
  then show ?thesis
    by (auto simp add: fl_def Let_def)
qed

lemma rd_pow2: "rd (2 ^ k) = 2 ^ k"
  using rd_exact [of 1 "int k"] by simp

lemma rd_abs_le:
  assumes "\<bar>x\<bar> \<le> 2 ^ k"
  shows "\<bar>rd x\<bar> \<le> 2 ^ k"
proof -
  from assms have "x \<le> 2 ^ k" and "- (2 ^ k) \<le> x"
    by simp_all
  then have "rd x \<le> rd (2 ^ k)" and "rd (- (2 ^ k)) \<le> rd x"
    by (simp_all add: rd_mono)
  then show ?thesis
    by (simp add: rd_minus rd_pow2)
qed

lemma fl_bounded:
  assumes "\<bar>x\<bar> \<le> 2 ^ k" and "k < 1024"
  shows "fl x = Fin (rd x)"
proof -
  from assms(1) have "\<bar>rd x\<bar> \<le> 2 ^ k"
    by (rule rd_abs_le)
  also from assms(2) have "(2::real) ^ k < 2 ^ 1024"
    by (intro power_strict_increasing) simp_all
  finally show ?thesis
    by (rule fl_Fin)
qed

lemma not_negative_fl: "0 \<le> x \<Longrightarrow> not_negative (fl x)"
  using rd_nonneg [of x] by (simp add: fl_def Let_def)

lemma not_negative_as_double: "not_negative x \<Longrightarrow> not_negative (as_double x)"
  by (cases x) (simp_all add: not_negative_fl)

lemma not_negative_mul_doubles:
  "not_negative x \<Longrightarrow> not_negative y \<Longrightarrow> not_negative (mul_doubles x y)"
  by (cases x; cases y) (auto simp add: not_negative_fl)

lemma not_negative_add_doubles:
  "not_negative x \<Longrightarrow> not_negative y \<Longrightarrow> not_negative (add_doubles x y)"
  by (cases x; cases y) (auto simp add: not_negative_fl)

lemma not_negative_dmul: "not_negative x \<Longrightarrow> not_negative y \<Longrightarrow> not_negative (dmul x y)"
  by (simp add: dmul_def not_negative_mul_doubles not_negative_as_double)

lemma not_negative_dadd: "not_negative x \<Longrightarrow> not_negative y \<Longrightarrow> not_negative (dadd x y)"
  by (simp add: dadd_def not_negative_add_doubles not_negative_as_double)

lemma dmul_Fin:
  assumes "\<bar>a\<bar> \<le> 2 ^ 511" and "\<bar>b\<bar> \<le> 2 ^ 511"
  shows "dmul (Fin a) (Fin b) = Fin (rd (rd a * rd b))"
proof -
  have a: "\<bar>rd a\<bar> \<le> 2 ^ 511"
    using assms(1) by (rule rd_abs_le)
  have b: "\<bar>rd b\<bar> \<le> 2 ^ 511"
    using assms(2) by (rule rd_abs_le)
  have fa: "fl a = Fin (rd a)"
    by (rule fl_bounded [OF assms(1)]) simp
  have fb: "fl b = Fin (rd b)"
    by (rule fl_bounded [OF assms(2)]) simp
  from a b have "\<bar>rd a\<bar> * \<bar>rd b\<bar> \<le> 2 ^ 511 * 2 ^ 511"
    by (intro mult_mono) simp_all
  then have "\<bar>rd a * rd b\<bar> \<le> 2 ^ 1022"
    by (simp add: abs_mult flip: power_add)
  then have "fl (rd a * rd b) = Fin (rd (rd a * rd b))"
    by (rule fl_bounded) simp
  with fa fb show ?thesis
    by (simp add: dmul_def)
qed

lemma dadd_Fin:
  assumes "\<bar>a\<bar> \<le> 2 ^ 1022" and "\<bar>b\<bar> \<le> 2 ^ 1022"
  shows "dadd (Fin a) (Fin b) = Fin (rd (rd a + rd b))"
proof -
  have a: "\<bar>rd a\<bar> \<le> 2 ^ 1022"
    using assms(1) by (rule rd_abs_le)
  have b: "\<bar>rd b\<bar> \<le> 2 ^ 1022"
    using assms(2) by (rule rd_abs_le)
  have fa: "fl a = Fin (rd a)"
    by (rule fl_bounded [OF assms(1)]) simp
  have fb: "fl b = Fin (rd b)"
    by (rule fl_bounded [OF assms(2)]) simp
  from a b have "\<bar>rd a + rd b\<bar> \<le> 2 ^ 1022 + 2 ^ 1022"
    by linarith
  then have "\<bar>rd a + rd b\<bar> \<le> 2 ^ 1023"
    by simp
  then have "fl (rd a + rd b) = Fin (rd (rd a + rd b))"
    by (rule fl_bounded) simp
  with fa fb show ?thesis
    by (simp add: dadd_def)
qed

lemma fl_exact:
  assumes "\<bar>m\<bar> < 2 ^ 53" and "- 1074 \<le> e" and "e \<le> 970"
  shows "fl (of_int m * 2 powi e) = Fin (of_int m * 2 powi e)"
proof -
  from assms(1) have "\<bar>real_of_int m\<bar> \<le> 2 powi 53"
    by (simp flip: of_int_abs)
  moreover from assms(3) have "(2::real) powi e \<le> 2 powi 970"
    by (intro power_int_increasing) simp_all
  ultimately have "\<bar>real_of_int m\<bar> * 2 powi e \<le> 2 powi 53 * 2 powi 970"
    by (intro mult_mono) simp_all
  also have "\<dots> = (2::real) powi (53 + 970)"
    by (rule power_int_add [symmetric]) simp
  finally have "\<bar>real_of_int m * 2 powi e\<bar> \<le> 2 ^ 1023"
    by (simp add: abs_mult)
  then have "fl (of_int m * 2 powi e) = Fin (rd (of_int m * 2 powi e))"
    by (rule fl_bounded) simp
  with assms(1,2) show ?thesis
    by (simp only: rd_exact)
qed

lemma fl_of_int: "\<bar>m\<bar> < 2 ^ 53 \<Longrightarrow> fl (of_int m) = Fin (of_int m)"
  using fl_exact [of m 0] by simp

lemma fl_small_ints:
  "fl 0 = Fin 0" "fl 1 = Fin 1" "fl 2 = Fin 2" "fl 3 = Fin 3" "fl 5 = Fin 5"
  "fl (- 1) = Fin (- 1)"
  using fl_of_int [of 0] fl_of_int [of 1] fl_of_int [of 2] fl_of_int [of 3] fl_of_int [of 5]
    fl_of_int [of "- 1"]
  by simp_all

lemma fl_halves: "fl (1 / 2) = Fin (1 / 2)" "fl (3 / 2) = Fin (3 / 2)"
  using fl_exact [of 1 "- 1"] fl_exact [of 3 "- 1"] by simp_all

lemma rd_underflow:
  assumes "\<bar>x\<bar> \<le> 2 powi (- 1075)"
  shows "rd x = 0"
proof -
  have tiny: "mag a = 0" if a: "0 \<le> a" "a \<le> 2 powi (- 1075)" for a
  proof -
    define q where "q = quantum a"
    from expo_range [of a] have "(2::real) powi (- 1074) \<le> q"
      unfolding q_def quantum_def by (intro power_int_increasing) simp_all
    moreover have "(2::real) powi (- 1075 + 1) = 2 powi (- 1075) * 2 powi 1"
      by (rule power_int_add) simp
    ultimately have "2 * a \<le> q"
      using a(2) by simp
    moreover have q: "0 < q"
      by (simp add: q_def quantum_pos)
    ultimately have half: "a / q \<le> 1 / 2"
      by (simp add: pos_divide_le_eq)
    from a(1) q have nonneg: "0 \<le> a / q"
      by simp
    moreover from half have "a / q < 1"
      by linarith
    ultimately have fl0: "\<lfloor>a / q\<rfloor> = 0"
      by (simp only: floor_eq_iff) simp
    with half have "rhe (a / q) = 0"
      by (simp add: rhe_def Let_def)
    then show ?thesis
      by (simp add: mag_def q_def)
  qed
  show ?thesis
  proof (cases "0 \<le> x")
    case True
    with assms tiny [of x] show ?thesis
      by (simp add: rd_nonneg_eq)
  next
    case False
    with assms tiny [of "- x"] show ?thesis
      by (simp add: rd_neg_eq)
  qed
qed

lemma fl_underflow: "\<bar>x\<bar> \<le> 2 powi (- 1075) \<Longrightarrow> fl x = Fin 0"
  by (simp add: fl_def rd_underflow)

lemma fl_overflow:
  assumes "2 powi 1024 \<le> x"
  shows "fl x = PInf"
proof -
  from assms have "2 powi 1024 \<le> \<bar>x\<bar>" and "0 \<le> x"
    by simp_all
  from rd_overflow [OF this(1)] rd_nonneg [OF this(2)] have "2 powi 1024 \<le> rd x"
    by simp
  then show ?thesis
    by (simp add: fl_def)
qed

lemma dge_zero_fl: "0 \<le> x \<Longrightarrow> dge (fl x) (Fin 0)"
  using rd_nonneg [of x] by (simp add: fl_def Let_def)

lemma dge_zero_as_double: "dge x (Fin 0) \<Longrightarrow> dge (as_double x) (Fin 0)"
  by (cases x) (simp_all add: dge_zero_fl)

lemma dge_zero_add_doubles:
  "dge x (Fin 0) \<Longrightarrow> dge y (Fin 0) \<Longrightarrow> dge (add_doubles x y) (Fin 0)"
  by (cases x; cases y) (simp_all add: dge_zero_fl)

lemma dge_zero_dadd: "dge x (Fin 0) \<Longrightarrow> dge y (Fin 0) \<Longrightarrow> dge (dadd x y) (Fin 0)"
  by (simp add: dadd_def dge_zero_add_doubles dge_zero_as_double)

lemma dmul_exact: "fl x = Fin x \<Longrightarrow> fl y = Fin y \<Longrightarrow> dmul (Fin x) (Fin y) = fl (x * y)"
  by (simp add: dmul_def)

lemma dmul_underflow:
  "dmul (Fin (2 powi (- 600))) (Fin (2 powi (- 600))) = Fin 0"
proof -
  define u :: real where "u = 2 powi (- 600)"
  have "fl (of_int 1 * 2 powi (- 600)) = Fin (of_int 1 * 2 powi (- 600))"
    by (rule fl_exact) simp_all
  then have u: "fl u = Fin u"
    by (simp only: u_def of_int_1 mult_1)
  have "u * u = 2 powi (- 600 + - 600)"
    unfolding u_def by (rule power_int_add [symmetric]) simp
  also have "\<dots> \<le> 2 powi (- 1075)"
    by (rule power_int_increasing) simp_all
  finally have "\<bar>u * u\<bar> \<le> 2 powi (- 1075)"
    by simp
  then have "fl (u * u) = Fin 0"
    by (rule fl_underflow)
  with dmul_exact [OF u u] show ?thesis
    by (simp only: u_def)
qed

lemma dmul_overflow:
  "dmul (Fin (2 powi 600)) (Fin (2 powi 600)) = PInf"
proof -
  define u :: real where "u = 2 powi 600"
  have "fl (of_int 1 * 2 powi 600) = Fin (of_int 1 * 2 powi 600)"
    by (rule fl_exact) simp_all
  then have u: "fl u = Fin u"
    by (simp only: u_def of_int_1 mult_1)
  have "(2::real) powi 1024 \<le> 2 powi (600 + 600)"
    by (rule power_int_increasing) simp_all
  also have "\<dots> = u * u"
    unfolding u_def by (rule power_int_add) simp
  finally have "fl (u * u) = PInf"
    by (rule fl_overflow)
  with dmul_exact [OF u u] show ?thesis
    by (simp only: u_def)
qed

lemma rd_unit:
  assumes "0 \<le> x" and "x \<le> 1"
  shows "0 \<le> rd x \<and> rd x \<le> 1"
  using rd_mono [OF assms(2)] rd_nonneg [OF assms(1)] by (simp add: rd_one)

lemma dmul_unit:
  assumes "0 \<le> a" "a \<le> 1" "0 \<le> b" "b \<le> 1"
  shows "dmul (Fin a) (Fin b) = Fin (rd (rd a * rd b))"
proof -
  have "(1::real) \<le> 2 ^ 511"
    by (rule one_le_power) simp
  with assms have "\<bar>a\<bar> \<le> 2 ^ 511" and "\<bar>b\<bar> \<le> 2 ^ 511"
    by linarith+
  then show ?thesis
    by (rule dmul_Fin)
qed

lemma dadd_small:
  assumes "0 \<le> a" "a \<le> 2" "0 \<le> b" "b \<le> 2"
  shows "dadd (Fin a) (Fin b) = Fin (rd (rd a + rd b))"
proof -
  have "(2::real) \<le> 2 ^ 1022"
    using power_increasing [of 1 1022 "2::real"] by simp
  with assms have "\<bar>a\<bar> \<le> 2 ^ 1022" and "\<bar>b\<bar> \<le> 2 ^ 1022"
    by linarith+
  then show ?thesis
    by (rule dadd_Fin)
qed

lemma expo_binade:
  assumes "2 powi k \<le> a" and "a < 2 powi (k + 1)" and "- 1022 \<le> k" and "k < 1024"
  shows "expo a = k"
proof -
  from assms(3) have "(2::real) powi (- 1022) \<le> 2 powi k"
    by (intro power_int_increasing) simp_all
  with assms(1) have "2 powi (- 1022) \<le> a"
    by linarith
  from expo_lower [OF this] assms(2) have "(2::real) powi (expo a) < 2 powi (k + 1)"
    by linarith
  then have upper: "\<not> k + 1 \<le> expo a"
    using power_int_increasing [of "k + 1" "expo a" "2::real"] by auto
  from assms(4) have "(2::real) powi (k + 1) \<le> 2 powi 1024"
    by (intro power_int_increasing) simp_all
  with assms(2) have "a < 2 powi 1024"
    by linarith
  from expo_upper [OF this] assms(1) have "(2::real) powi k < 2 powi (expo a + 1)"
    by linarith
  then have "\<not> expo a + 1 \<le> k"
    using power_int_increasing [of "expo a + 1" k "2::real"] by auto
  with upper show ?thesis
    by simp
qed

text \<open>A tie between two doubles goes to the even significand: \<open>2^53 + 1\<close> is rounded down.\<close>

lemma rd_tie_to_even: "rd (2 ^ 53 + 1) = 2 ^ 53"
proof -
  have "expo (2 ^ 53 + 1) = 53"
    by (rule expo_binade) simp_all
  then have "quantum (2 ^ 53 + 1) = 2"
    by (simp add: quantum_def)
  then have "mag (2 ^ 53 + 1) = 2 ^ 53"
    by (simp add: mag_def rhe_def Let_def)
  then show ?thesis
    by (simp add: rd_nonneg_eq)
qed

lemma fl_tie_to_even:
  "fl 9007199254740992 = Fin 9007199254740992"
  "fl 9007199254740993 = Fin 9007199254740992"
proof -
  show "fl 9007199254740992 = Fin 9007199254740992"
    using fl_exact [of "2 ^ 52" 1] by simp
  have "\<bar>2 ^ 53 + 1 :: real\<bar> \<le> 2 ^ 54"
    by simp
  then have "fl (2 ^ 53 + 1) = Fin (rd (2 ^ 53 + 1))"
    by (rule fl_bounded) simp
  then show "fl 9007199254740993 = Fin 9007199254740992"
    using rd_tie_to_even by simp
qed

subsection \<open>Facts about normalisation\<close>

lemma removePunctuation_map: "removePunctuation s = map normalise_char s"
  by (induction s)
     (simp_all add: removePunctuation_def punctuation_def replace_def normalise_char_def)

lemma tolower_upper:
  assumes "CHR ''A'' \<le> c" "c \<le> CHR ''Z''"
  shows "of_char (tolower c) = of_char c + (32::nat)"
proof -
  from assms have "of_char c \<le> (90::nat)"
    by (simp add: less_eq_char_def)
  then show ?thesis using assms
    by (simp add: tolower_def)
qed

lemma tolower_idem: "tolower (tolower c) = tolower c"
proof (cases "CHR ''A'' \<le> c \<and> c \<le> CHR ''Z''")
  case True
  then have "of_char (tolower c) = of_char c + (32::nat)"
    by (simp add: tolower_upper)
  moreover from True have "(65::nat) \<le> of_char c"
    by (simp add: less_eq_char_def)
  ultimately have "\<not> tolower c \<le> CHR ''Z''"
    by (simp add: less_eq_char_def)
  then show ?thesis
    by (simp add: tolower_def)
next
  case False
  then have "tolower c = c"
    by (auto simp add: tolower_def)
  then show ?thesis
    by simp
qed

lemma normalise_char_idem: "normalise_char (normalise_char c) = normalise_char c"
proof (cases "tolower c \<in> set punctuation")
  case True
  then show ?thesis
    by (simp add: normalise_char_def tolower_def punctuation_def)
next
  case False
  then show ?thesis
    by (simp add: normalise_char_def tolower_idem)
qed

text \<open>
  The characters replaced by a space are the nine elements of the array, the NUL among
  them: none of them is a letter, so lowercasing neither produces nor removes one.
\<close>

lemma punctuation_below_letters: "p \<in> set punctuation \<Longrightarrow> of_char p < (65::nat)"
  by (auto simp add: punctuation_def)

lemma tolower_punctuation: "tolower c \<in> set punctuation \<longleftrightarrow> c \<in> set punctuation"
proof (cases "CHR ''A'' \<le> c \<and> c \<le> CHR ''Z''")
  case True
  then have "(65::nat) \<le> of_char c"
    by (simp add: less_eq_char_def)
  moreover from True have "of_char (tolower c) = of_char c + (32::nat)"
    by (simp add: tolower_upper)
  ultimately have "\<not> of_char c < (65::nat)" and "\<not> of_char (tolower c) < (65::nat)"
    by simp_all
  then show ?thesis
    using punctuation_below_letters by blast
next
  case False
  then have "tolower c = c"
    by (auto simp add: tolower_def)
  then show ?thesis
    by simp
qed

lemma removePunctuation_chars:
  "removePunctuation s =
     map (\<lambda>c. if c \<in> set punctuation then CHR '' '' else tolower c) s"
  by (simp add: removePunctuation_map normalise_char_def tolower_punctuation)

text \<open>
  C8. removePunctuation is meant to lowercase every letter, to replace exactly the
  characters \<open>. , ; : ! ? " \n\<close> by a space and to leave every other character
  unchanged. Its loop runs over \<open>sizeof(punctuation)\<close> = 9 array elements, the ninth
  being the terminating NUL of the literal, so a NUL character in the input is replaced by
  a space as well: on the one-character string holding NUL the function returns one space.
\<close>

theorem removePunctuation_replaces_NUL: "removePunctuation [CHR 0x00] = '' ''"
  by (simp add: removePunctuation_def punctuation_def replace_def tolower_def)

text \<open>
  C9. Normalisation is idempotent: applying removePunctuation to its own result changes
  nothing.
\<close>

theorem removePunctuation_idempotent:
  "removePunctuation (removePunctuation s) = removePunctuation s"
  by (simp add: removePunctuation_map normalise_char_idem)

subsection \<open>Facts about maps and word counts\<close>

lemma lookup_store: "lookup (store m k v) x = (if x = k then v else lookup m x)"
  by (induction m) auto

lemma keys_store: "fst ` set (store m k v) = insert k (fst ` set m)"
  by (induction m) (force split: if_splits)+

lemma sorted_store: "sorted (map fst m) \<Longrightarrow> sorted (map fst (store m k v))"
  by (induction m) (fastforce simp add: keys_store intro: order_trans less_imp_le)+

lemma lookup_absent: "k \<notin> fst ` set m \<Longrightarrow> lookup m k = 0"
  by (induction m) auto

lemma sum_store:
  fixes m :: "int smap"
  shows "sorted (map fst m) \<Longrightarrow>
     sum_list (map snd (store m k v)) = sum_list (map snd m) - lookup m k + v"
proof (induction m)
  case Nil
  then show ?case by simp
next
  case (Cons e m)
  obtain k' v' where e: "e = (k', v')" by (cases e)
  show ?case
  proof (cases "k < k'")
    case True
    with Cons.prems e have "k \<notin> fst ` set m"
      by auto
    then have "lookup m k = 0"
      by (rule lookup_absent)
    moreover from True have "k \<noteq> k'"
      by simp
    ultimately show ?thesis using True e by simp
  next
    case False
    with Cons e show ?thesis by auto
  qed
qed

lemma lookup_foldl_store:
  "lookup (foldl (\<lambda>m k. store m k (f k)) m0 ks) x =
     (if x \<in> set ks then f x else lookup m0 x)"
  by (induction ks arbitrary: m0) (auto simp add: lookup_store)

lemma lookup_addWord:
  "lookup (addWord m w) x = (if w \<noteq> [] \<and> x = w then lookup m x + 1 else lookup m x)"
  by (simp add: addWord_def lookup_store)

lemma keys_addWord:
  "fst ` set (addWord m w) = (if w \<noteq> [] then insert w (fst ` set m) else fst ` set m)"
  by (simp add: addWord_def keys_store)

lemma sorted_addWord: "sorted (map fst m) \<Longrightarrow> sorted (map fst (addWord m w))"
  by (simp add: addWord_def sorted_store)

lemma sum_addWord:
  "sorted (map fst m) \<Longrightarrow>
     sum_list (map snd (addWord m w)) = sum_list (map snd m) + (if w \<noteq> [] then 1 else 0)"
  by (simp add: addWord_def sum_store)

lemma lookup_foldl_addWord:
  "lookup (foldl addWord m ws) x = lookup m x + int (count_list (filter (\<lambda>w. w \<noteq> []) ws) x)"
  by (induction ws arbitrary: m) (auto simp add: lookup_addWord)

lemma keys_foldl_addWord:
  "fst ` set (foldl addWord m ws) = fst ` set m \<union> set (filter (\<lambda>w. w \<noteq> []) ws)"
  by (induction ws arbitrary: m) (auto simp add: keys_addWord)

lemma sorted_foldl_addWord:
  "sorted (map fst m) \<Longrightarrow> sorted (map fst (foldl addWord m ws))"
  by (induction ws arbitrary: m) (auto simp add: sorted_addWord)

lemma sum_foldl_addWord:
  "sorted (map fst m) \<Longrightarrow>
     sum_list (map snd (foldl addWord m ws)) =
       sum_list (map snd m) + int (length (filter (\<lambda>w. w \<noteq> []) ws))"
  by (induction ws arbitrary: m) (auto simp add: sorted_addWord sum_addWord)

lemma lookup_getUniqueWords:
  "lookup (getUniqueWords doc) w = int (count_list (words_of doc) w)"
  by (simp add: getUniqueWords_def words_of_def lookup_foldl_addWord)

lemma keys_getUniqueWords: "fst ` set (getUniqueWords doc) = set (words_of doc)"
  by (simp add: getUniqueWords_def words_of_def keys_foldl_addWord)

lemma sorted_getUniqueWords: "sorted (map fst (getUniqueWords doc))"
  by (simp add: getUniqueWords_def sorted_foldl_addWord)

lemma nWords_getUniqueWords:
  "sum_list (map snd (getUniqueWords doc)) = int (length (words_of doc))"
  by (simp add: getUniqueWords_def words_of_def sum_foldl_addWord)

subsection \<open>Facts about the TF, IDF and TF-IDF tables\<close>

lemma lookup_foldl_step:
  assumes "\<And>m k x. lookup (step m k) x = (if x = k then f k else lookup m x)"
  shows "lookup (foldl step m0 ks) x = (if x \<in> set ks then f x else lookup m0 x)"
  by (induction ks arbitrary: m0) (auto simp add: assms)

lemma lookup_computeTF_row:
  "lookup (computeTF_row refWords doc) w =
     (if w \<in> fst ` set refWords
      then ddiv (of_count (lookup (getUniqueWords doc) w))
                (of_count (sum_list (map snd (getUniqueWords doc))))
      else 0)"
  unfolding computeTF_row_def Let_def
  by (subst lookup_foldl_step
        [where f = "\<lambda>k. ddiv (of_count (lookup (getUniqueWords doc) k))
                             (of_count (sum_list (map snd (getUniqueWords doc))))"])
     (auto simp add: lookup_store of_count_def)

lemma lookup_computeIDF:
  "lookup (computeIDF refWords docs) w =
     (if w \<in> fst ` set refWords
      then dlog (ddiv (of_count (int (length docs))) (Fin (nOcc w docs)))
      else 0)"
  by (simp add: computeIDF_def lookup_foldl_store)

lemma lookup_computeTFIDF_row:
  "lookup (computeTFIDF_row refWords tf_i idf) w =
     (if w \<in> fst ` set refWords
      then (if \<not> truthy (lookup tf_i w) \<or> \<not> truthy (lookup idf w) then Fin 0
            else dmul (lookup tf_i w) (lookup idf w))
      else 0)"
  unfolding computeTFIDF_row_def
  by (subst lookup_foldl_step
        [where f = "\<lambda>k. if \<not> truthy (lookup tf_i k) \<or> \<not> truthy (lookup idf k) then Fin 0
                         else dmul (lookup tf_i k) (lookup idf k)"])
     (auto simp add: lookup_store)

lemma foldl_nOcc:
  "foldl (\<lambda>n doc. if lookup (getUniqueWords doc) w \<noteq> 0 then n + 1 else n) (a::real) docs =
     a + real (length (filter (\<lambda>doc. w \<in> set (words_of doc)) docs))"
  by (induction docs arbitrary: a) (auto simp add: lookup_getUniqueWords count_list_0_iff)

lemma nOcc_df: "nOcc w docs = real (df w docs)"
  by (simp add: nOcc_def df_def foldl_nOcc)

lemma df_le_length: "df w docs \<le> length docs"
  by (simp add: df_def)

lemma df_member:
  assumes "d \<in> set docs" "w \<in> set (words_of d)"
  shows "1 \<le> df w docs"
proof -
  from assms have "d \<in> set (filter (\<lambda>doc. w \<in> set (words_of doc)) docs)"
    by simp
  then have "0 < length (filter (\<lambda>doc. w \<in> set (words_of doc)) docs)"
    by (metis length_pos_if_in_set)
  then show ?thesis
    unfolding df_def by arith
qed


subsection \<open>The TF, IDF and TF-IDF cells\<close>

text \<open>
  C6. For a document with at least one word (total word count \<open>nWords > 0\<close>) and a
  reference word, the TF cell of computeTF is the count of the word in the document's own
  word counts (zero if the word is absent) divided by the document's total word count. The
  total is the number of all words of the document, whether reference words or not, and
  the quotient lies between 0 and 1.
\<close>

theorem computeTF_value:
  assumes "i < length docs" and "w \<in> fst ` set refWords"
    and "0 < sum_list (map snd (getUniqueWords (docs ! i)))"
  shows "length (computeTF refWords docs) = length docs \<and>
         sum_list (map snd (getUniqueWords (docs ! i))) = int (length (words_of (docs ! i))) \<and>
         lookup (computeTF refWords docs ! i) w =
           Fin (real_of_int (lookup (getUniqueWords (docs ! i)) w)
                / real_of_int (sum_list (map snd (getUniqueWords (docs ! i))))) \<and>
         0 \<le> real_of_int (lookup (getUniqueWords (docs ! i)) w)
                / real_of_int (sum_list (map snd (getUniqueWords (docs ! i)))) \<and>
         real_of_int (lookup (getUniqueWords (docs ! i)) w)
                / real_of_int (sum_list (map snd (getUniqueWords (docs ! i)))) \<le> 1"
proof -
  let ?d = "docs ! i"
  let ?c = "lookup (getUniqueWords ?d) w"
  let ?n = "sum_list (map snd (getUniqueWords ?d))"
  have n: "?n = int (length (words_of ?d))"
    by (rule nWords_getUniqueWords)
  have c: "?c = int (count_list (words_of ?d) w)"
    by (rule lookup_getUniqueWords)
  have "count_list (words_of ?d) w \<le> length (words_of ?d)"
    by (rule count_le_length)
  with n c have le: "?c \<le> ?n" and nonneg: "0 \<le> ?c"
    by simp_all
  from assms(3) have pos: "0 < real_of_int ?n"
    by simp
  have cell: "lookup (computeTF refWords docs ! i) w = Fin (real_of_int ?c / real_of_int ?n)"
    using assms by (simp add: computeTF_def lookup_computeTF_row of_count_def)
  have lo: "0 \<le> real_of_int ?c / real_of_int ?n"
    using nonneg pos by simp
  have hi: "real_of_int ?c / real_of_int ?n \<le> 1"
    using le pos by simp
  have len: "length (computeTF refWords docs) = length docs"
    by (simp add: computeTF_def)
  from len n cell lo hi show ?thesis
    by blast
qed

theorem computeTF_value_witness:
  "(0::nat) < length [''to be or not to be''] \<and>
   ''be'' \<in> fst ` set [(''be'', 1::int), (''it'', 1)] \<and>
   0 < sum_list (map snd (getUniqueWords ([''to be or not to be''] ! 0))) \<and>
   lookup (computeTF [(''be'', 1), (''it'', 1)] [''to be or not to be''] ! 0) ''be'' = Fin (1 / 3)"
proof -
  have n: "sum_list (map snd (getUniqueWords ([''to be or not to be''] ! 0))) = 6"
    by code_simp
  have c: "lookup (getUniqueWords ([''to be or not to be''] ! 0)) ''be'' = 2"
    by code_simp
  have h1: "(0::nat) < length [''to be or not to be'']"
    by simp
  have h2: "''be'' \<in> fst ` set [(''be'', 1::int), (''it'', 1)]"
    by simp
  have h3: "0 < sum_list (map snd (getUniqueWords ([''to be or not to be''] ! 0)))"
    by (simp only: n)
  from computeTF_value [OF h1 h2 h3]
  have "lookup (computeTF [(''be'', 1), (''it'', 1)] [''to be or not to be''] ! 0) ''be'' = Fin (2 / 6)"
    by (simp only: n c) simp
  with h1 h2 h3 show ?thesis
    by simp
qed



text \<open>
  C4. When the documents contain the reference document and the reference words are those
  getUniqueWords builds from it, every reference word occurs in at least one document:
  \<open>df\<close> and the counter \<open>nOcc\<close> are at least 1, the division \<open>nDocs / nOcc\<close> of
  computeIDF is an ordinary quotient (its divisor is not zero) and the IDF cell is finite.
\<close>

theorem computeIDF_denominator_nonzero:
  assumes "ref \<in> set docs" and "w \<in> fst ` set (getUniqueWords ref)"
  shows "1 \<le> df w docs \<and> 1 \<le> nOcc w docs \<and>
         ddiv (of_count (int (length docs))) (Fin (nOcc w docs)) =
           Fin (real (length docs) / nOcc w docs) \<and>
         lookup (computeIDF (getUniqueWords ref) docs) w =
           Fin (ln (real (length docs) / nOcc w docs))"
proof -
  from assms(2) have "w \<in> set (words_of ref)"
    by (simp add: keys_getUniqueWords)
  with assms(1) have df: "1 \<le> df w docs"
    by (rule df_member)
  then have n: "1 \<le> nOcc w docs"
    by (simp add: nOcc_df)
  then have quot: "ddiv (of_count (int (length docs))) (Fin (nOcc w docs)) =
                     Fin (real (length docs) / nOcc w docs)"
    by (simp add: of_count_def)
  have "df w docs \<le> length docs"
    by (rule df_le_length)
  with df have "0 < length docs" and "0 < df w docs"
    by linarith+
  then have "0 < real (length docs) / nOcc w docs"
    by (simp add: nOcc_df)
  with assms(2) quot
  have "lookup (computeIDF (getUniqueWords ref) docs) w =
          Fin (ln (real (length docs) / nOcc w docs))"
    by (simp add: lookup_computeIDF)
  with df n quot show ?thesis
    by blast
qed

theorem computeIDF_denominator_nonzero_witness:
  "''a b'' \<in> set [''a b'', ''c''] \<and> ''b'' \<in> fst ` set (getUniqueWords ''a b'') \<and>
   1 \<le> df ''b'' [''a b'', ''c''] \<and> 1 \<le> nOcc ''b'' [''a b'', ''c''] \<and>
   lookup (computeIDF (getUniqueWords ''a b'') [''a b'', ''c'']) ''b'' = Fin (ln 2)"
proof -
  have n: "nOcc ''b'' [''a b'', ''c''] = 1"
    unfolding nOcc_df by code_simp
  have h1: "''a b'' \<in> set [''a b'', ''c'']"
    by simp
  have h2: "''b'' \<in> fst ` set (getUniqueWords ''a b'')"
    by code_simp
  from computeIDF_denominator_nonzero [OF h1 h2] h1 h2 show ?thesis
    by (simp add: n)
qed

text \<open>
  C5. For a document of the TF table and a reference word, the cell of computeTFIDF is 0
  when the TF cell or the IDF cell is 0, in particular when one of them is absent from its
  map, and the product of the two, as the multiplication of doubles computes it,
  otherwise; for two finite doubles \<open>x\<close> and \<open>y\<close> it is in every case the real product
  \<open>x * y\<close> rounded to the nearest double: 0 when the product is below the smallest
  subnormal number, \<open>+inf\<close> when it is beyond the largest double. The concrete cells
  below show the four cases: \<open>1/2 * 3 = 3/2\<close>, an absent word, \<open>2^-600 * 2^-600 = 0\<close>
  and \<open>2^600 * 2^600 = +inf\<close>.
\<close>

theorem computeTFIDF_cell:
  assumes "i < length tf" and "w \<in> fst ` set refWords"
  shows "lookup (computeTFIDF refWords tf idf ! i) w =
           (if lookup (tf ! i) w = Fin 0 \<or> lookup idf w = Fin 0 then Fin 0
            else dmul (lookup (tf ! i) w) (lookup idf w)) \<and>
         (w \<notin> fst ` set (tf ! i) \<or> w \<notin> fst ` set idf \<longrightarrow>
            lookup (computeTFIDF refWords tf idf ! i) w = Fin 0) \<and>
         (\<forall>x y. lookup (tf ! i) w = Fin x \<and> lookup idf w = Fin y \<and> fl x = Fin x \<and> fl y = Fin y \<longrightarrow>
            lookup (computeTFIDF refWords tf idf ! i) w = fl (x * y))"
proof -
  have cell: "lookup (computeTFIDF refWords tf idf ! i) w =
           (if lookup (tf ! i) w = Fin 0 \<or> lookup idf w = Fin 0 then Fin 0
            else dmul (lookup (tf ! i) w) (lookup idf w))"
    using assms by (simp add: computeTFIDF_def lookup_computeTFIDF_row truthy_def)
  have absent: "lookup (computeTFIDF refWords tf idf ! i) w = Fin 0"
    if "w \<notin> fst ` set (tf ! i) \<or> w \<notin> fst ` set idf"
  proof -
    from that have "lookup (tf ! i) w = Fin 0 \<or> lookup idf w = Fin 0"
      by (auto simp add: lookup_absent zero_dbl_def)
    with cell show ?thesis
      by simp
  qed
  have rounded: "lookup (computeTFIDF refWords tf idf ! i) w = fl (x * y)"
    if "lookup (tf ! i) w = Fin x \<and> lookup idf w = Fin y \<and> fl x = Fin x \<and> fl y = Fin y" for x y
  proof (cases "x = 0 \<or> y = 0")
    case True
    with that cell show ?thesis
      by (auto simp add: fl_small_ints)
  next
    case False
    with that cell show ?thesis
      by (simp add: dmul_exact)
  qed
  from cell absent rounded show ?thesis
    by blast
qed

theorem computeTFIDF_cell_witness:
  "(0::nat) < length [[(''a'', Fin (1 / 2)), (''u'', Fin (2 powi (- 600))), (''v'', Fin (2 powi 600))]] \<and>
   ''a'' \<in> fst ` set [(''a'', 1::int), (''b'', 1), (''u'', 1), (''v'', 1)] \<and>
   lookup (computeTFIDF [(''a'', 1), (''b'', 1), (''u'', 1), (''v'', 1)]
       [[(''a'', Fin (1 / 2)), (''u'', Fin (2 powi (- 600))), (''v'', Fin (2 powi 600))]]
       [(''a'', Fin 3), (''u'', Fin (2 powi (- 600))), (''v'', Fin (2 powi 600))] ! 0) ''a'' =
     Fin (3 / 2) \<and>
   lookup (computeTFIDF [(''a'', 1), (''b'', 1), (''u'', 1), (''v'', 1)]
       [[(''a'', Fin (1 / 2)), (''u'', Fin (2 powi (- 600))), (''v'', Fin (2 powi 600))]]
       [(''a'', Fin 3), (''u'', Fin (2 powi (- 600))), (''v'', Fin (2 powi 600))] ! 0) ''b'' =
     Fin 0 \<and>
   lookup (computeTFIDF [(''a'', 1), (''b'', 1), (''u'', 1), (''v'', 1)]
       [[(''a'', Fin (1 / 2)), (''u'', Fin (2 powi (- 600))), (''v'', Fin (2 powi 600))]]
       [(''a'', Fin 3), (''u'', Fin (2 powi (- 600))), (''v'', Fin (2 powi 600))] ! 0) ''u'' =
     Fin 0 \<and>
   lookup (computeTFIDF [(''a'', 1), (''b'', 1), (''u'', 1), (''v'', 1)]
       [[(''a'', Fin (1 / 2)), (''u'', Fin (2 powi (- 600))), (''v'', Fin (2 powi 600))]]
       [(''a'', Fin 3), (''u'', Fin (2 powi (- 600))), (''v'', Fin (2 powi 600))] ! 0) ''v'' =
     PInf"
proof -
  define u :: real where "u = 2 powi (- 600)"
  define v :: real where "v = 2 powi 600"
  let ?r = "[(''a'', 1::int), (''b'', 1), (''u'', 1), (''v'', 1)]"
  let ?t = "[[(''a'', Fin (1 / 2)), (''u'', Fin u), (''v'', Fin v)]]"
  let ?idf = "[(''a'', Fin 3), (''u'', Fin u), (''v'', Fin v)]"
  have u0: "u \<noteq> 0" and v0: "v \<noteq> 0"
    by (simp_all add: u_def v_def)
  have h1: "(0::nat) < length ?t"
    by simp
  have ha: "''a'' \<in> fst ` set ?r" and hb: "''b'' \<in> fst ` set ?r"
    and hu: "''u'' \<in> fst ` set ?r" and hv: "''v'' \<in> fst ` set ?r"
    by simp_all
  note cell_a = computeTFIDF_cell [OF h1 ha, of ?idf]
  note cell_b = computeTFIDF_cell [OF h1 hb, of ?idf]
  note cell_u = computeTFIDF_cell [OF h1 hu, of ?idf]
  note cell_v = computeTFIDF_cell [OF h1 hv, of ?idf]
  have "lookup (?t ! 0) ''a'' = Fin (1 / 2) \<and> lookup ?idf ''a'' = Fin 3 \<and>
        fl (1 / 2) = Fin (1 / 2) \<and> fl 3 = Fin 3"
    by (simp add: fl_halves fl_small_ints)
  with cell_a have "lookup (computeTFIDF ?r ?t ?idf ! 0) ''a'' = fl (1 / 2 * 3)"
    by blast
  then have a: "lookup (computeTFIDF ?r ?t ?idf ! 0) ''a'' = Fin (3 / 2)"
    by (simp add: fl_halves)
  have "''b'' \<notin> fst ` set (?t ! 0) \<or> ''b'' \<notin> fst ` set ?idf"
    by simp
  with cell_b have b: "lookup (computeTFIDF ?r ?t ?idf ! 0) ''b'' = Fin 0"
    by blast
  from cell_u u0 dmul_underflow [folded u_def]
  have c: "lookup (computeTFIDF ?r ?t ?idf ! 0) ''u'' = Fin 0"
    by simp
  from cell_v v0 dmul_overflow [folded v_def]
  have d: "lookup (computeTFIDF ?r ?t ?idf ! 0) ''v'' = PInf"
    by simp
  from h1 ha a b c d show ?thesis
    unfolding u_def v_def by blast
qed

subsection \<open>Facts about the ranking loop\<close>

lemma rank_from_range:
  "rank_from refWords rows i maxId maxSum = maxId \<or>
   (i + 1 \<le> rank_from refWords rows i maxId maxSum \<and>
    rank_from refWords rows i maxId maxSum \<le> i + int (length rows))"
proof (induction rows arbitrary: i maxId maxSum)
  case Nil
  then show ?case by simp
next
  case (Cons row rows)
  show ?case
  proof (cases "dge (docSum refWords row) maxSum")
    case True
    with Cons [of "i + 1" "i + 1" "docSum refWords row"] show ?thesis
      by (auto simp add: Let_def)
  next
    case False
    with Cons [of "i + 1" maxId maxSum] show ?thesis
      by (auto simp add: Let_def)
  qed
qed

lemma dge_trans: "dge a b \<Longrightarrow> dge b c \<Longrightarrow> dge a c"
  by (cases a; cases b; cases c) auto

lemma dge_total: "dge a c \<Longrightarrow> dge b d \<Longrightarrow> dge a b \<or> dge b a"
  by (cases a; cases b; cases c; cases d) auto

lemma last_max_Cons_0:
  assumes "dge x m" and "\<forall>s\<in>set ss. \<not> dge s x"
  shows "last_max (x # ss) m 0"
  using assms by (auto simp add: last_max_def All_less_Suc2)

lemma last_max_Cons_update:
  assumes "dge x m" and "last_max ss x j"
  shows "last_max (x # ss) m (Suc j)"
proof -
  from assms(2) have "dge (ss ! j) x"
    by (simp add: last_max_def)
  with assms(1) have "dge (ss ! j) m"
    by (blast intro: dge_trans)
  with assms(2) \<open>dge (ss ! j) x\<close> show ?thesis
    by (auto simp add: last_max_def All_less_Suc2)
qed

lemma last_max_Cons_keep:
  assumes "\<not> dge x m" and "last_max ss m j"
  shows "last_max (x # ss) m (Suc j)"
proof -
  from assms(2) have "dge (ss ! j) m"
    by (simp add: last_max_def)
  with assms(1) have "\<not> dge x (ss ! j)"
    by (blast intro: dge_trans)
  with assms(2) show ?thesis
    by (auto simp add: last_max_def All_less_Suc2)
qed

lemma rank_from_spec:
  "(rank_from refWords rows i maxId maxSum = maxId \<and>
    (\<forall>row\<in>set rows. \<not> dge (docSum refWords row) maxSum)) \<or>
   (\<exists>j. last_max (map (docSum refWords) rows) maxSum j \<and>
        rank_from refWords rows i maxId maxSum = i + int j + 1)"
proof (induction rows arbitrary: i maxId maxSum)
  case Nil
  then show ?case by simp
next
  case (Cons row rows)
  let ?x = "docSum refWords row"
  let ?ss = "map (docSum refWords) rows"
  show ?case
  proof (cases "dge ?x maxSum")
    case True
    then have step: "rank_from refWords (row # rows) i maxId maxSum =
                       rank_from refWords rows (i + 1) (i + 1) ?x"
      by (simp add: Let_def)
    from Cons [of "i + 1" "i + 1" ?x] show ?thesis
    proof
      assume "rank_from refWords rows (i + 1) (i + 1) ?x = i + 1 \<and>
              (\<forall>row\<in>set rows. \<not> dge (docSum refWords row) ?x)"
      with True step have "last_max (?x # ?ss) maxSum 0 \<and>
          rank_from refWords (row # rows) i maxId maxSum = i + int 0 + 1"
        by (simp add: last_max_Cons_0)
      then show ?thesis
        by (simp only: list.map) blast
    next
      assume "\<exists>j. last_max ?ss ?x j \<and>
                  rank_from refWords rows (i + 1) (i + 1) ?x = i + 1 + int j + 1"
      then obtain j where "last_max ?ss ?x j"
        and "rank_from refWords rows (i + 1) (i + 1) ?x = i + 1 + int j + 1"
        by blast
      with True step have "last_max (?x # ?ss) maxSum (Suc j) \<and>
          rank_from refWords (row # rows) i maxId maxSum = i + int (Suc j) + 1"
        by (simp add: last_max_Cons_update)
      then show ?thesis
        by (simp only: list.map) blast
    qed
  next
    case False
    then have step: "rank_from refWords (row # rows) i maxId maxSum =
                       rank_from refWords rows (i + 1) maxId maxSum"
      by (simp add: Let_def)
    from Cons [of "i + 1" maxId maxSum] show ?thesis
    proof
      assume "rank_from refWords rows (i + 1) maxId maxSum = maxId \<and>
              (\<forall>row\<in>set rows. \<not> dge (docSum refWords row) maxSum)"
      with False step show ?thesis
        by simp
    next
      assume "\<exists>j. last_max ?ss maxSum j \<and>
                  rank_from refWords rows (i + 1) maxId maxSum = i + 1 + int j + 1"
      then obtain j where "last_max ?ss maxSum j"
        and "rank_from refWords rows (i + 1) maxId maxSum = i + 1 + int j + 1"
        by blast
      with False step have "last_max (?x # ?ss) maxSum (Suc j) \<and>
          rank_from refWords (row # rows) i maxId maxSum = i + int (Suc j) + 1"
        by (simp add: last_max_Cons_keep)
      then show ?thesis
        by (simp only: list.map) blast
    qed
  qed
qed

lemma getMostSimilarDocument_skips_first:
  "getMostSimilarDocument refWords (tfidf[0 := row]) = getMostSimilarDocument refWords tfidf"
  by (simp add: getMostSimilarDocument_def drop_update_cancel)

lemma getMostSimilarDocument_range:
  "getMostSimilarDocument refWords tfidf = 0 \<or>
   (2 \<le> getMostSimilarDocument refWords tfidf \<and>
    getMostSimilarDocument refWords tfidf \<le> int (length tfidf))"
  using rank_from_range [of refWords "drop 1 tfidf" 1 0 "Fin 0"]
  by (auto simp add: getMostSimilarDocument_def)

lemma getMostSimilarDocument_spec:
  "(getMostSimilarDocument refWords tfidf = 0 \<and>
    (\<forall>k. 1 \<le> k \<and> k < length tfidf \<longrightarrow> \<not> dge (docSum refWords (tfidf ! k)) (Fin 0))) \<or>
   (\<exists>j. 1 \<le> j \<and> j < length tfidf \<and>
        getMostSimilarDocument refWords tfidf = int j + 1 \<and>
        dge (docSum refWords (tfidf ! j)) (Fin 0) \<and>
        (\<forall>k. 1 \<le> k \<and> k < length tfidf \<longrightarrow>
             dge (docSum refWords (tfidf ! k)) (docSum refWords (tfidf ! j)) \<longrightarrow>
             dge (docSum refWords (tfidf ! j)) (docSum refWords (tfidf ! k))) \<and>
        (\<forall>k. j < k \<and> k < length tfidf \<longrightarrow>
             \<not> dge (docSum refWords (tfidf ! k)) (docSum refWords (tfidf ! j))))"
proof -
  let ?rows = "drop 1 tfidf"
  let ?S = "\<lambda>k. docSum refWords (tfidf ! k)"
  let ?M = "map (docSum refWords) ?rows"
  have nth: "map (docSum refWords) ?rows ! k = ?S (Suc k)" if "Suc k < length tfidf" for k
    using that by simp
  have cand: "\<exists>k'. k = Suc k' \<and> k' < length ?rows" if "1 \<le> k \<and> k < length tfidf" for k
    using that by (cases k) simp_all
  from rank_from_spec [of refWords ?rows 1 0 "Fin 0"] show ?thesis
  proof
    assume none: "rank_from refWords ?rows 1 0 (Fin 0) = 0 \<and>
                  (\<forall>row\<in>set ?rows. \<not> dge (docSum refWords row) (Fin 0))"
    have "\<not> dge (?S k) (Fin 0)" if "1 \<le> k \<and> k < length tfidf" for k
    proof -
      from cand [OF that] obtain k' where k': "k = Suc k'" "k' < length ?rows"
        by blast
      then have "?rows ! k' \<in> set ?rows"
        by (simp only: nth_mem)
      moreover from k' have "?rows ! k' = tfidf ! k"
        by simp
      ultimately show ?thesis
        using none by auto
    qed
    with none show ?thesis
      by (simp add: getMostSimilarDocument_def)
  next
    assume "\<exists>j. last_max (map (docSum refWords) ?rows) (Fin 0) j \<and>
                rank_from refWords ?rows 1 0 (Fin 0) = 1 + int j + 1"
    then obtain j' where lm: "last_max (map (docSum refWords) ?rows) (Fin 0) j'"
      and r: "rank_from refWords ?rows 1 0 (Fin 0) = 1 + int j' + 1"
      by blast
    from lm have jlen: "j' < length ?rows"
      by (simp add: last_max_def)
    then have j': "Suc j' < length tfidf"
      by simp
    have nth: "\<forall>k<length ?rows. ?M ! k = ?S (Suc k)"
      by simp
    from lm have lm1: "dge (?M ! j') (Fin 0)"
      and lm2: "\<forall>k<length ?M. dge (?M ! k) (?M ! j') \<longrightarrow> dge (?M ! j') (?M ! k)"
      and lm3: "\<forall>k<length ?M. j' < k \<longrightarrow> \<not> dge (?M ! k) (?M ! j')"
      unfolding last_max_def by blast+
    have len: "length ?M = length ?rows"
      by simp
    from lm1 nth jlen have ge0: "dge (?S (Suc j')) (Fin 0)"
      by metis
    from lm2 nth jlen len
    have B: "\<forall>k<length ?rows. dge (?S (Suc k)) (?S (Suc j')) \<longrightarrow> dge (?S (Suc j')) (?S (Suc k))"
      by metis
    from lm3 nth jlen len
    have C: "\<forall>k<length ?rows. j' < k \<longrightarrow> \<not> dge (?S (Suc k)) (?S (Suc j'))"
      by metis
    have max: "dge (?S (Suc j')) (?S k)"
      if "1 \<le> k \<and> k < length tfidf" and "dge (?S k) (?S (Suc j'))" for k
    proof -
      from cand [OF that(1)] obtain k' where k': "k = Suc k'" "k' < length ?rows"
        by blast
      with B that(2) show ?thesis
        by blast
    qed
    have later: "\<not> dge (?S k) (?S (Suc j'))" if "Suc j' < k \<and> k < length tfidf" for k
    proof -
      from that have "1 \<le> k \<and> k < length tfidf"
        by simp
      from cand [OF this] obtain k' where k': "k = Suc k'" "k' < length ?rows"
        by blast
      with that have "j' < k'"
        by simp
      with C k' show ?thesis
        by blast
    qed
    from r have "getMostSimilarDocument refWords tfidf = int (Suc j') + 1"
      by (simp add: getMostSimilarDocument_def)
    with j' ge0 max later show ?thesis
      by (intro disjI2 exI [of _ "Suc j'"]) simp
  qed
qed

text \<open>
  Rounding takes part in the ranking: the sum \<open>2^53 + 1\<close> of the first candidate below is
  rounded to \<open>2^53\<close>, the sum of the second, and of the two tied documents the later is
  selected.
\<close>

lemma rounding_decides_ranking:
  "docSum [(''a'', 1), (''b'', 1)] [(''a'', Fin (2 ^ 53)), (''b'', Fin 1)] = Fin (2 ^ 53) \<and>
   getMostSimilarDocument [(''a'', 1), (''b'', 1)]
     [[], [(''a'', Fin (2 ^ 53)), (''b'', Fin 1)], [(''a'', Fin (2 ^ 53))]] = 3"
  by (simp add: getMostSimilarDocument_def docSum_def truthy_def dadd_def zero_dbl_def
      fl_small_ints fl_tie_to_even)

subsection \<open>Facts about the tables the program builds\<close>

text \<open>
  The cell of the TF-IDF table that \<open>main\<close> builds from an array of documents and a map of
  reference words, and the sign of its cells and sums: TF is a quotient of counts and IDF
  the logarithm of a quotient that is at least 1, so no cell and no sum is negative, and
  the sum of a document that has at least one word is not NaN when the number of
  documents fits the \<open>int\<close> that counts them.
\<close>

lemma pipeline_cell:
  assumes "i < length docs" and "w \<in> fst ` set refWords"
  shows "lookup (computeTFIDF refWords (computeTF refWords docs) (computeIDF refWords docs) ! i) w =
     (let tf = ddiv (of_count (lookup (getUniqueWords (docs ! i)) w))
                    (of_count (sum_list (map snd (getUniqueWords (docs ! i)))));
          idf = dlog (ddiv (of_count (int (length docs))) (Fin (nOcc w docs)))
      in if \<not> truthy tf \<or> \<not> truthy idf then Fin 0 else dmul tf idf)"
  using assms
  by (simp add: computeTFIDF_def computeTF_def lookup_computeTFIDF_row lookup_computeTF_row
      lookup_computeIDF Let_def)

lemma not_negative_dge: "not_negative x \<Longrightarrow> x \<noteq> NaN \<Longrightarrow> dge x (Fin 0)"
  by (cases x) auto

lemma not_negative_tf:
  "not_negative (ddiv (of_count (lookup (getUniqueWords doc) w))
                      (of_count (sum_list (map snd (getUniqueWords doc)))))"
  by (simp add: of_count_def lookup_getUniqueWords nWords_getUniqueWords)

lemma not_negative_idf:
  "not_negative (dlog (ddiv (of_count (int (length docs))) (Fin (nOcc w docs))))"
proof (cases "df w docs = 0")
  case True
  then show ?thesis
    by (simp add: of_count_def nOcc_df)
next
  case False
  then have pos: "0 < real (df w docs)"
    by simp
  have "real (df w docs) \<le> real (length docs)"
    using df_le_length [of w docs] by simp
  with pos have one: "1 \<le> real (length docs) / real (df w docs)"
    by (simp add: le_divide_eq)
  then have "0 \<le> ln (real (length docs) / real (df w docs))"
    by simp
  from False
  have quot: "ddiv (of_count (int (length docs))) (Fin (nOcc w docs)) =
                Fin (real (length docs) / real (df w docs))"
    by (simp add: of_count_def nOcc_df)
  from one have "0 < real (length docs) / real (df w docs)"
    by linarith
  then have "dlog (Fin (real (length docs) / real (df w docs))) =
               Fin (ln (real (length docs) / real (df w docs)))"
    by (simp only: dlog.simps if_True)
  with quot \<open>0 \<le> ln (real (length docs) / real (df w docs))\<close> show ?thesis
    by (simp only: not_negative.simps)
qed

lemma not_negative_cell:
  assumes "i < length docs"
  shows "not_negative
     (lookup (computeTFIDF refWords (computeTF refWords docs) (computeIDF refWords docs) ! i) w)"
proof (cases "w \<in> fst ` set refWords")
  case True
  from pipeline_cell [OF assms True] not_negative_tf [of "docs ! i" w]
    not_negative_idf [of docs w]
  show ?thesis
    by (simp add: Let_def not_negative_dmul)
next
  case False
  with assms show ?thesis
    by (simp add: computeTFIDF_def computeTF_def lookup_computeTFIDF_row zero_dbl_def)
qed

lemma not_negative_foldl_docSum:
  assumes "\<forall>w. not_negative (lookup row w)" and "not_negative a"
  shows "not_negative
     (foldl (\<lambda>sum w. if truthy (lookup row w) then dadd sum (lookup row w) else sum) a ks)"
  using assms(2) by (induction ks arbitrary: a) (simp_all add: assms(1) not_negative_dadd)

lemma not_negative_docSum:
  assumes "i < length docs"
  shows "not_negative (docSum refWords
     (computeTFIDF refWords (computeTF refWords docs) (computeIDF refWords docs) ! i))"
  unfolding docSum_def using assms
  by (intro not_negative_foldl_docSum) (simp_all add: not_negative_cell)

lemma df_quotient_pos:
  assumes "1 \<le> df w docs"
  shows "0 < real (length docs) / real (df w docs)"
proof -
  have "df w docs \<le> length docs"
    by (rule df_le_length)
  with assms have "0 < length docs" and "0 < df w docs"
    by linarith+
  then show ?thesis
    by simp
qed

lemma pipeline_sum_not_negative:
  assumes "i < length docs"
    and "docSum refWords
           (computeTFIDF refWords (computeTF refWords docs) (computeIDF refWords docs) ! i) \<noteq> NaN"
  shows "dge (docSum refWords
           (computeTFIDF refWords (computeTF refWords docs) (computeIDF refWords docs) ! i)) (Fin 0)"
  using not_negative_docSum [OF assms(1)] assms(2) by (rule not_negative_dge)

lemma dge_zero_cell:
  assumes "i < length docs" and "0 < length (words_of (docs ! i))" and "length docs < 2 ^ 31"
  shows "dge (lookup (computeTFIDF refWords (computeTF refWords docs) (computeIDF refWords docs) ! i)
                w) (Fin 0)"
proof (cases "w \<in> fst ` set refWords")
  case True
  let ?c = "lookup (getUniqueWords (docs ! i)) w"
  let ?n = "sum_list (map snd (getUniqueWords (docs ! i)))"
  define t where "t = real_of_int ?c / real_of_int ?n"
  define l where "l = ln (real (length docs) / real (df w docs))"
  from assms(2) have n: "real_of_int ?n \<noteq> 0"
    by (simp add: nWords_getUniqueWords)
  then have tf: "ddiv (of_count ?c) (of_count ?n) = Fin t"
    by (simp add: of_count_def t_def)
  show ?thesis
  proof (cases "?c = 0")
    case True
    with tf have "\<not> truthy (ddiv (of_count ?c) (of_count ?n))"
      by (simp add: truthy_def t_def)
    with pipeline_cell [OF assms(1) \<open>w \<in> fst ` set refWords\<close>] show ?thesis
      by (simp add: Let_def)
  next
    case False
    then have "w \<in> set (words_of (docs ! i))"
      by (simp add: lookup_getUniqueWords count_list_0_iff)
    moreover from assms(1) have "docs ! i \<in> set docs"
      by simp
    ultimately have df: "1 \<le> df w docs"
      by (rule df_member [rotated])
    then have pos: "0 < real (length docs) / real (df w docs)" and "real (df w docs) \<noteq> 0"
      by (simp_all add: df_quotient_pos)
    then have idf: "dlog (ddiv (of_count (int (length docs))) (Fin (nOcc w docs))) = Fin l"
      by (simp add: of_count_def nOcc_df l_def)
    have "count_list (words_of (docs ! i)) w \<le> length (words_of (docs ! i))"
      by (rule count_le_length)
    with assms(2) have t: "0 \<le> t" "t \<le> 1"
      by (simp_all add: t_def lookup_getUniqueWords nWords_getUniqueWords)
    from df df_le_length [of w docs] have "1 \<le> real (length docs) / real (df w docs)"
      by (simp add: le_divide_eq)
    then have l0: "0 \<le> l"
      by (simp add: l_def)
    from pos have "l \<le> real (length docs) / real (df w docs) - 1"
      unfolding l_def by (rule ln_le_minus_one)
    also from df have "real (length docs) / real (df w docs) \<le> real (length docs)"
      by (simp add: divide_le_eq mult_le_cancel_left1)
    also from assms(3) have "real (length docs) \<le> real (2 ^ 31)"
      by (intro of_nat_mono) simp
    finally have "l \<le> 2 ^ 31"
      by simp
    also have "(2::real) ^ 31 \<le> 2 ^ 511"
      by (rule power_increasing) simp_all
    finally have l: "\<bar>l\<bar> \<le> 2 ^ 511"
      using l0 by simp
    have "(1::real) \<le> 2 ^ 511"
      by (rule one_le_power) simp
    with t have "\<bar>t\<bar> \<le> 2 ^ 511"
      by linarith
    from dmul_Fin [OF this l] have "dmul (Fin t) (Fin l) = Fin (rd (rd t * rd l))" .
    moreover from t(1) l0 have "0 \<le> rd (rd t * rd l)"
      by (intro rd_nonneg mult_nonneg_nonneg)
    ultimately have "dge (dmul (Fin t) (Fin l)) (Fin 0)"
      by simp
    with tf idf pipeline_cell [OF assms(1) True] show ?thesis
      by (simp add: Let_def)
  qed
next
  case False
  with assms(1) show ?thesis
    by (simp add: computeTFIDF_def computeTF_def lookup_computeTFIDF_row zero_dbl_def)
qed

lemma dge_zero_foldl_docSum:
  assumes "\<forall>w. dge (lookup row w) (Fin 0)" and "dge a (Fin 0)"
  shows "dge (foldl (\<lambda>sum w. if truthy (lookup row w) then dadd sum (lookup row w) else sum)
                a ks) (Fin 0)"
  using assms(2) by (induction ks arbitrary: a) (simp_all add: assms(1) dge_zero_dadd)

lemma pipeline_sum_of_nonempty:
  assumes "i < length docs" and "0 < length (words_of (docs ! i))" and "length docs < 2 ^ 31"
  shows "dge (docSum refWords
           (computeTFIDF refWords (computeTF refWords docs) (computeIDF refWords docs) ! i)) (Fin 0)"
  unfolding docSum_def using assms
  by (intro dge_zero_foldl_docSum) (simp_all add: dge_zero_cell)

subsection \<open>The ranking\<close>

text \<open>
  C2, as amended. For a TF-IDF table with at least two documents: getMostSimilarDocument
  reads only the documents at the indices 1 and above (replacing the row of index 0 does
  not change the result), it never returns 1, the id that the rule "index plus 1" gives to
  the reference document, and, when at least one document of index 1 or above has a sum
  that compares \<open>>= 0\<close>, it returns the index plus 1 of the winning document: a document
  of index at least 1 whose sum compares \<open>>= 0\<close>, such that no candidate has a greater sum
  and no later candidate reaches its sum.

  The condition on the sums is needed. The running maximum starts at 0 and is replaced only
  by a sum that compares \<open>>=\<close> to it, so when every candidate sum is NaN or negative no
  document is selected and the function returns 0 for a table of two or more documents.
  The program builds such a table from the two documents \<open>"apple"\<close> and \<open>""\<close>: the
  second has no word, its TF cell is \<open>0 / 0\<close>, and its sum is NaN. In a table that the
  program builds from fewer than \<open>2^31\<close> documents, the sum of every document with at
  least one word compares \<open>>= 0\<close> (\<open>pipeline_sum_of_nonempty\<close>).
\<close>

theorem getMostSimilarDocument_id:
  assumes "2 \<le> length tfidf"
  shows "(\<forall>row. getMostSimilarDocument refWords (tfidf[0 := row]) =
                getMostSimilarDocument refWords tfidf) \<and>
         getMostSimilarDocument refWords tfidf \<noteq> 1 \<and>
         ((\<exists>k. 1 \<le> k \<and> k < length tfidf \<and> dge (docSum refWords (tfidf ! k)) (Fin 0)) \<longrightarrow>
          (\<exists>j. 1 \<le> j \<and> j < length tfidf \<and>
               getMostSimilarDocument refWords tfidf = int j + 1 \<and>
               dge (docSum refWords (tfidf ! j)) (Fin 0) \<and>
               (\<forall>k. 1 \<le> k \<and> k < length tfidf \<longrightarrow>
                    dge (docSum refWords (tfidf ! k)) (docSum refWords (tfidf ! j)) \<longrightarrow>
                    dge (docSum refWords (tfidf ! j)) (docSum refWords (tfidf ! k))) \<and>
               (\<forall>k. j < k \<and> k < length tfidf \<longrightarrow>
                    \<not> dge (docSum refWords (tfidf ! k)) (docSum refWords (tfidf ! j)))))"
proof (intro conjI impI)
  show "\<forall>row. getMostSimilarDocument refWords (tfidf[0 := row]) =
              getMostSimilarDocument refWords tfidf"
    by (simp add: getMostSimilarDocument_skips_first)
next
  from getMostSimilarDocument_range [of refWords tfidf]
  show "getMostSimilarDocument refWords tfidf \<noteq> 1"
    by auto
next
  assume "\<exists>k. 1 \<le> k \<and> k < length tfidf \<and> dge (docSum refWords (tfidf ! k)) (Fin 0)"
  with getMostSimilarDocument_spec [of refWords tfidf]
  show "\<exists>j. 1 \<le> j \<and> j < length tfidf \<and>
               getMostSimilarDocument refWords tfidf = int j + 1 \<and>
               dge (docSum refWords (tfidf ! j)) (Fin 0) \<and>
               (\<forall>k. 1 \<le> k \<and> k < length tfidf \<longrightarrow>
                    dge (docSum refWords (tfidf ! k)) (docSum refWords (tfidf ! j)) \<longrightarrow>
                    dge (docSum refWords (tfidf ! j)) (docSum refWords (tfidf ! k))) \<and>
               (\<forall>k. j < k \<and> k < length tfidf \<longrightarrow>
                    \<not> dge (docSum refWords (tfidf ! k)) (docSum refWords (tfidf ! j)))"
    by blast
qed

theorem getMostSimilarDocument_id_witness:
  "2 \<le> length [[(''a'', Fin 5)], [(''a'', Fin 1)], [(''a'', Fin 2)]] \<and>
   dge (docSum [(''a'', 1)] ([[(''a'', Fin 5)], [(''a'', Fin 1)], [(''a'', Fin 2)]] ! 2)) (Fin 0) \<and>
   (\<exists>j. 1 \<le> j \<and> j < length [[(''a'', Fin 5)], [(''a'', Fin 1)], [(''a'', Fin 2)]] \<and>
        getMostSimilarDocument [(''a'', 1)] [[(''a'', Fin 5)], [(''a'', Fin 1)], [(''a'', Fin 2)]] =
          int j + 1) \<and>
   getMostSimilarDocument [(''a'', 1)] [[(''a'', Fin 5)], [(''a'', Fin 1)], [(''a'', Fin 2)]] = 3"
proof -
  let ?t = "[[(''a'', Fin 5)], [(''a'', Fin 1)], [(''a'', Fin 2)]]"
  let ?r = "[(''a'', 1::int)]"
  have h1: "2 \<le> length ?t"
    by simp
  have s2: "dge (docSum ?r (?t ! 2)) (Fin 0)"
    by (simp add: docSum_def truthy_def dadd_def fl_small_ints)
  then have h2: "\<exists>k. 1 \<le> k \<and> k < length ?t \<and> dge (docSum ?r (?t ! k)) (Fin 0)"
    by (intro exI [of _ 2]) simp
  have res: "getMostSimilarDocument ?r ?t = 3"
    by (simp add: getMostSimilarDocument_def docSum_def truthy_def dadd_def fl_small_ints)
  from getMostSimilarDocument_id [OF h1, of ?r] h2
  have "\<exists>j. 1 \<le> j \<and> j < length ?t \<and> getMostSimilarDocument ?r ?t = int j + 1"
    by blast
  with h1 s2 res show ?thesis
    by blast
qed

text \<open>
  Without the condition on the sums: the table of the two documents \<open>"apple"\<close> and
  \<open>""\<close> has two rows, and the id returned is 0.
\<close>

theorem getMostSimilarDocument_id_counterexample:
  "length (computeTFIDF (getUniqueWords ''apple'')
             (computeTF (getUniqueWords ''apple'') [''apple'', [] ])
             (computeIDF (getUniqueWords ''apple'') [''apple'', [] ])) = 2 \<and>
   getMostSimilarDocument (getUniqueWords ''apple'')
     (computeTFIDF (getUniqueWords ''apple'')
        (computeTF (getUniqueWords ''apple'') [''apple'', [] ])
        (computeIDF (getUniqueWords ''apple'') [''apple'', [] ])) = 0"
proof -
  let ?docs = "[''apple'', [] ]"
  let ?r = "getUniqueWords ''apple''"
  let ?t = "computeTFIDF ?r (computeTF ?r ?docs) (computeIDF ?r ?docs)"
  have r: "?r = [(''apple'', 1)]"
    by code_simp
  have c: "lookup (getUniqueWords []) ''apple'' = 0"
    and n: "sum_list (map snd (getUniqueWords [])) = 0"
    and d: "df ''apple'' ?docs = 1"
    by code_simp+
  have len: "length ?t = 2"
    by (simp add: computeTFIDF_def computeTF_def)
  have cell: "lookup (?t ! 1) ''apple'' = NaN"
    using pipeline_cell [of 1 ?docs "''apple''" ?r]
    by (simp add: r c n d nOcc_df of_count_def truthy_def Let_def dmul_def)
  have "docSum ?r (?t ! 1) = NaN"
    unfolding docSum_def using cell by (simp add: r truthy_def dadd_def fl_small_ints)
  moreover from len have "drop 1 ?t = [?t ! 1]"
    by (cases ?t) (auto simp add: length_Suc_conv)
  ultimately have "getMostSimilarDocument ?r ?t = 0"
    by (simp add: getMostSimilarDocument_def Let_def)
  with len show ?thesis
    by simp
qed

text \<open>
  C3, as amended. When two documents of indices \<open>1 <= a < b\<close> have the same summed
  TF-IDF, that sum is the maximum (no candidate has a greater sum) and it compares
  \<open>>= 0\<close>, getMostSimilarDocument does not select the earlier one, and it selects the
  later one, returning \<open>b + 1\<close>, when no document after \<open>b\<close> reaches the same sum.

  Both conditions are needed. The running maximum starts at 0, so two documents that tie
  at a negative sum, the largest of the table, are both passed over and 0 is returned;
  and of three documents that tie at the maximum the last is selected, not the later of
  the first two. No sum of a table that the program builds is negative
  (\<open>pipeline_sum_not_negative\<close>), so for these tables the condition \<open>>= 0\<close> says
  only that the equal sums are not NaN.
\<close>

theorem getMostSimilarDocument_tie:
  assumes ab: "1 \<le> a" "a < b" "b < length tfidf"
    and tie: "docSum refWords (tfidf ! a) = docSum refWords (tfidf ! b)"
    and nonneg: "dge (docSum refWords (tfidf ! b)) (Fin 0)"
    and max: "\<forall>k. 1 \<le> k \<and> k < length tfidf \<longrightarrow>
                 dge (docSum refWords (tfidf ! k)) (docSum refWords (tfidf ! b)) \<longrightarrow>
                 dge (docSum refWords (tfidf ! b)) (docSum refWords (tfidf ! k))"
  shows "getMostSimilarDocument refWords tfidf \<noteq> int a + 1 \<and>
         ((\<forall>k. b < k \<and> k < length tfidf \<longrightarrow>
              \<not> dge (docSum refWords (tfidf ! k)) (docSum refWords (tfidf ! b))) \<longrightarrow>
          getMostSimilarDocument refWords tfidf = int b + 1)"
proof -
  let ?S = "\<lambda>k. docSum refWords (tfidf ! k)"
  from ab have b1: "1 \<le> b \<and> b < length tfidf"
    by simp
  with nonneg getMostSimilarDocument_spec [of refWords tfidf] obtain j
    where j: "1 \<le> j" "j < length tfidf"
      and id: "getMostSimilarDocument refWords tfidf = int j + 1"
      and j0: "dge (?S j) (Fin 0)"
      and jmax: "\<forall>k. 1 \<le> k \<and> k < length tfidf \<longrightarrow> dge (?S k) (?S j) \<longrightarrow> dge (?S j) (?S k)"
      and jlast: "\<forall>k. j < k \<and> k < length tfidf \<longrightarrow> \<not> dge (?S k) (?S j)"
    by blast
  from dge_total [OF nonneg j0] max j have bj: "dge (?S b) (?S j)"
    by blast
  with jmax b1 have jb: "dge (?S j) (?S b)"
    by blast
  have "b \<le> j"
  proof (rule ccontr)
    assume "\<not> b \<le> j"
    with jlast b1 have "\<not> dge (?S b) (?S j)"
      by simp
    with bj show False
      by simp
  qed
  with ab(2) id have first: "getMostSimilarDocument refWords tfidf \<noteq> int a + 1"
    by simp
  have second: "getMostSimilarDocument refWords tfidf = int b + 1"
    if later: "\<forall>k. b < k \<and> k < length tfidf \<longrightarrow> \<not> dge (?S k) (?S b)"
  proof -
    have "\<not> b < j"
    proof
      assume "b < j"
      with later j(2) have "\<not> dge (?S j) (?S b)"
        by simp
      with jb show False
        by simp
    qed
    with \<open>b \<le> j\<close> id show ?thesis
      by simp
  qed
  from first second show ?thesis
    by blast
qed

theorem getMostSimilarDocument_tie_witness:
  "docSum [(''a'', 1)] ([[], [(''a'', Fin 2)], [(''a'', Fin 2)], [(''a'', Fin 1)]] ! 1) =
     docSum [(''a'', 1)] ([[], [(''a'', Fin 2)], [(''a'', Fin 2)], [(''a'', Fin 1)]] ! 2) \<and>
   dge (docSum [(''a'', 1)] ([[], [(''a'', Fin 2)], [(''a'', Fin 2)], [(''a'', Fin 1)]] ! 2))
     (Fin 0) \<and>
   getMostSimilarDocument [(''a'', 1)] [[], [(''a'', Fin 2)], [(''a'', Fin 2)], [(''a'', Fin 1)]] = 3"
proof -
  let ?t = "[[], [(''a'', Fin 2)], [(''a'', Fin 2)], [(''a'', Fin 1)]]"
  let ?r = "[(''a'', 1::int)]"
  have three: "i = 1 \<or> i = 2 \<or> i = 3" if "1 \<le> i \<and> i < length ?t" for i :: nat
    using that by auto
  have ab: "(1::nat) \<le> 1" "(1::nat) < 2" "2 < length ?t"
    by simp_all
  have tie: "docSum ?r (?t ! 1) = docSum ?r (?t ! 2)"
    by (simp add: docSum_def)
  have nonneg: "dge (docSum ?r (?t ! 2)) (Fin 0)"
    by (simp add: docSum_def truthy_def dadd_def fl_small_ints)
  have max: "\<forall>k. 1 \<le> k \<and> k < length ?t \<longrightarrow>
               dge (docSum ?r (?t ! k)) (docSum ?r (?t ! 2)) \<longrightarrow>
               dge (docSum ?r (?t ! 2)) (docSum ?r (?t ! k))"
  proof (intro allI impI)
    fix k :: nat
    assume "1 \<le> k \<and> k < length ?t"
    from three [OF this] show "dge (docSum ?r (?t ! 2)) (docSum ?r (?t ! k))"
      by (auto simp add: docSum_def truthy_def dadd_def fl_small_ints)
  qed
  have later: "\<forall>k. 2 < k \<and> k < length ?t \<longrightarrow> \<not> dge (docSum ?r (?t ! k)) (docSum ?r (?t ! 2))"
  proof (intro allI impI)
    fix k :: nat
    assume "2 < k \<and> k < length ?t"
    then have "k = 3"
      by auto
    then show "\<not> dge (docSum ?r (?t ! k)) (docSum ?r (?t ! 2))"
      by (simp add: docSum_def truthy_def dadd_def fl_small_ints)
  qed
  from getMostSimilarDocument_tie [OF ab tie nonneg max] later
  have "getMostSimilarDocument ?r ?t = 3"
    by simp
  with tie nonneg show ?thesis
    by blast
qed

text \<open>
  Without the two conditions: in the table whose candidates both have the sum \<open>-1\<close> the
  tied sum is the maximum and the id returned is 0, not 3; in the table whose three
  candidates all have the sum 2 the documents of indices 1 and 2 tie at the maximum and
  the id returned is 4, not 3.
\<close>

theorem getMostSimilarDocument_tie_counterexample:
  "docSum [(''a'', 1)] ([[], [(''a'', Fin (- 1))], [(''a'', Fin (- 1))]] ! 1) = Fin (- 1) \<and>
   docSum [(''a'', 1)] ([[], [(''a'', Fin (- 1))], [(''a'', Fin (- 1))]] ! 2) = Fin (- 1) \<and>
   getMostSimilarDocument [(''a'', 1)] [[], [(''a'', Fin (- 1))], [(''a'', Fin (- 1))]] = 0 \<and>
   docSum [(''a'', 1)] ([[], [(''a'', Fin 2)], [(''a'', Fin 2)], [(''a'', Fin 2)]] ! 1) = Fin 2 \<and>
   docSum [(''a'', 1)] ([[], [(''a'', Fin 2)], [(''a'', Fin 2)], [(''a'', Fin 2)]] ! 2) = Fin 2 \<and>
   docSum [(''a'', 1)] ([[], [(''a'', Fin 2)], [(''a'', Fin 2)], [(''a'', Fin 2)]] ! 3) = Fin 2 \<and>
   getMostSimilarDocument [(''a'', 1)] [[], [(''a'', Fin 2)], [(''a'', Fin 2)], [(''a'', Fin 2)]] = 4"
  by (simp add: getMostSimilarDocument_def docSum_def truthy_def dadd_def fl_small_ints)

text \<open>
  C10. For a TF-IDF table with at most one document the loop over the indices
  \<open>1 .. nDocs - 1\<close> does not run and getMostSimilarDocument returns 0, which is not the
  id (index plus 1) of any document.
\<close>

theorem getMostSimilarDocument_single:
  assumes "length tfidf \<le> 1"
  shows "getMostSimilarDocument refWords tfidf = 0 \<and>
         (\<forall>i::nat. getMostSimilarDocument refWords tfidf \<noteq> int i + 1)"
proof -
  from assms have "drop 1 tfidf = []"
    by simp
  then have "getMostSimilarDocument refWords tfidf = 0"
    by (simp add: getMostSimilarDocument_def)
  then show ?thesis
    by simp
qed

theorem getMostSimilarDocument_single_witness:
  "length [[(''a'', Fin 1)]] \<le> 1 \<and>
   getMostSimilarDocument [(''a'', 1)] [[(''a'', Fin 1)]] = 0 \<and>
   getMostSimilarDocument [(''a'', 1)] [] = 0"
proof -
  have h: "length [[(''a'', Fin 1)]] \<le> 1" and h': "length ([] :: dbl smap list) \<le> 1"
    by simp_all
  from getMostSimilarDocument_single [OF h, of "[(''a'', 1)]"]
       getMostSimilarDocument_single [OF h', of "[(''a'', 1)]"] h
  show ?thesis
    by simp
qed

subsection \<open>Facts about the corpus of main\<close>

lemma Docs_refWords:
  "map fst (getUniqueWords (Docs ! 0)) = [''an'', ''apple'', ''i'd'', ''like'']"
  by code_simp

lemma Docs_counts:
  "lookup (getUniqueWords (Docs ! Suc 0)) ''an'' = 1"
  "lookup (getUniqueWords (Docs ! Suc 0)) ''apple'' = 1"
  "lookup (getUniqueWords (Docs ! Suc 0)) ''i'd'' = 0"
  "lookup (getUniqueWords (Docs ! Suc 0)) ''like'' = 0"
  "lookup (getUniqueWords (Docs ! 2)) ''an'' = 2"
  "lookup (getUniqueWords (Docs ! 2)) ''apple'' = 1"
  "lookup (getUniqueWords (Docs ! 2)) ''i'd'' = 0"
  "lookup (getUniqueWords (Docs ! 2)) ''like'' = 0"
  "lookup (getUniqueWords (Docs ! 3)) ''an'' = 0"
  "lookup (getUniqueWords (Docs ! 3)) ''apple'' = 0"
  "lookup (getUniqueWords (Docs ! 3)) ''i'd'' = 0"
  "lookup (getUniqueWords (Docs ! 3)) ''like'' = 0"
  by code_simp+

lemma Docs_nWords:
  "sum_list (map snd (getUniqueWords (Docs ! Suc 0))) = 8"
  "sum_list (map snd (getUniqueWords (Docs ! 2))) = 7"
  "sum_list (map snd (getUniqueWords (Docs ! 3))) = 5"
  by code_simp+

lemma Docs_df:
  "df ''an'' Docs = 3" "df ''apple'' Docs = 3" "df ''i'd'' Docs = 1" "df ''like'' Docs = 1"
  by code_simp+

lemma Docs_length: "length Docs = 4"
  by (simp add: Docs_def)


lemma Docs_keys: "fst ` set (getUniqueWords (Docs ! 0)) = {''an'', ''apple'', ''i'd'', ''like''}"
proof -
  have "fst ` set (getUniqueWords (Docs ! 0)) = set (map fst (getUniqueWords (Docs ! 0)))"
    by simp
  also have "\<dots> = {''an'', ''apple'', ''i'd'', ''like''}"
    by (simp only: Docs_refWords) auto
  finally show ?thesis .
qed

lemma ln_four_thirds: "1 / 8 \<le> ln (4 / 3 :: real) \<and> ln (4 / 3 :: real) \<le> 1"
proof -
  have "1 / 3 - (1 / 3)\<^sup>2 \<le> ln (1 + 1 / 3 :: real)"
    by (rule ln_one_plus_pos_lower_bound) simp_all
  moreover have "ln (1 + 1 / 3 :: real) \<le> 1 / 3"
    by (rule ln_add_one_self_le_self) simp
  ultimately show ?thesis
    by (simp add: power2_eq_square)
qed

lemma Docs_cells:
  fixes refWords tfidf
  defines "refWords \<equiv> getUniqueWords (Docs ! 0)"
  defines "tfidf \<equiv> computeTFIDF refWords (computeTF refWords Docs) (computeIDF refWords Docs)"
  shows "lookup (tfidf ! Suc 0) ''an'' = dmul (Fin (1 / 8)) (Fin (ln (4 / 3)))"
    and "lookup (tfidf ! Suc 0) ''apple'' = dmul (Fin (1 / 8)) (Fin (ln (4 / 3)))"
    and "lookup (tfidf ! Suc 0) ''i'd'' = Fin 0"
    and "lookup (tfidf ! Suc 0) ''like'' = Fin 0"
    and "lookup (tfidf ! 2) ''an'' = dmul (Fin (2 / 7)) (Fin (ln (4 / 3)))"
    and "lookup (tfidf ! 2) ''apple'' = dmul (Fin (1 / 7)) (Fin (ln (4 / 3)))"
    and "lookup (tfidf ! 2) ''i'd'' = Fin 0"
    and "lookup (tfidf ! 2) ''like'' = Fin 0"
    and "lookup (tfidf ! 3) ''an'' = Fin 0"
    and "lookup (tfidf ! 3) ''apple'' = Fin 0"
    and "lookup (tfidf ! 3) ''i'd'' = Fin 0"
    and "lookup (tfidf ! 3) ''like'' = Fin 0"
  unfolding refWords_def tfidf_def
  by (simp_all add: pipeline_cell Docs_keys Docs_length Docs_counts Docs_nWords nOcc_df Docs_df
      of_count_def truthy_def Let_def)

lemma Docs_sums:
  fixes refWords tfidf
  defines "refWords \<equiv> getUniqueWords (Docs ! 0)"
  defines "tfidf \<equiv> computeTFIDF refWords (computeTF refWords Docs) (computeIDF refWords Docs)"
  shows "\<exists>s1 s2. docSum refWords (tfidf ! Suc 0) = Fin s1 \<and> docSum refWords (tfidf ! 2) = Fin s2 \<and>
           docSum refWords (tfidf ! 3) = Fin 0 \<and> 0 \<le> s1 \<and> s1 \<le> s2 \<and> 0 < s2"
proof -
  define l where "l = rd (ln (4 / 3))"
  define c1 where "c1 = rd (rd (1 / 8) * l)"
  define c2 where "c2 = rd (rd (2 / 7) * l)"
  define c3 where "c3 = rd (rd (1 / 7) * l)"
  define s1 where "s1 = rd (rd (rd (rd 0 + rd c1)) + rd c1)"
  define s2 where "s2 = rd (rd (rd (rd 0 + rd c2)) + rd c3)"
  have sixtyfourth: "rd (1 / 64) = 1 / 64"
    using rd_exact [of 1 "- 6"] by simp
  have thirtysecond: "rd (1 / 32) = 1 / 32"
    using rd_exact [of 1 "- 5"] by simp
  from ln_four_thirds have l: "1 / 8 \<le> l" "l \<le> 1"
    using rd_mono [of "1 / 8" "ln (4 / 3)"] rd_mono [of "ln (4 / 3)" 1]
    by (simp_all add: l_def rd_eighth rd_one)
  have seventh: "1 / 8 \<le> rd (1 / 7)" "rd (1 / 7) \<le> 1"
    using rd_mono [of "1 / 8" "1 / 7"] rd_mono [of "1 / 7" 1] by (simp_all add: rd_eighth rd_one)
  have seventh2: "1 / 8 \<le> rd (2 / 7)" "rd (2 / 7) \<le> 1"
    using rd_mono [of "1 / 8" "2 / 7"] rd_mono [of "2 / 7" 1] by (simp_all add: rd_eighth rd_one)
  have m1: "dmul (Fin (1 / 8)) (Fin (ln (4 / 3))) = Fin c1"
    unfolding c1_def l_def using ln_four_thirds by (intro dmul_unit) simp_all
  have m2: "dmul (Fin (2 / 7)) (Fin (ln (4 / 3))) = Fin c2"
    unfolding c2_def l_def using ln_four_thirds by (intro dmul_unit) simp_all
  have m3: "dmul (Fin (1 / 7)) (Fin (ln (4 / 3))) = Fin c3"
    unfolding c3_def l_def using ln_four_thirds by (intro dmul_unit) simp_all
  from l have "1 / 64 \<le> rd (1 / 8) * l"
    by (simp add: rd_eighth)
  then have "rd (1 / 64) \<le> c1"
    unfolding c1_def by (rule rd_mono)
  then have c1_low: "1 / 64 \<le> c1"
    by (simp only: sixtyfourth)
  from l have "rd (1 / 8) * l \<le> 1"
    by (simp add: rd_eighth)
  then have "c1 \<le> rd 1"
    unfolding c1_def by (rule rd_mono)
  then have c1_up: "c1 \<le> 1"
    by (simp only: rd_one)
  from l seventh2(1) have "rd (1 / 8) * l \<le> rd (2 / 7) * l"
    by (intro mult_right_mono) (simp_all add: rd_eighth)
  then have c12: "c1 \<le> c2"
    unfolding c1_def c2_def by (rule rd_mono)
  from l seventh(1) have "rd (1 / 8) * l \<le> rd (1 / 7) * l"
    by (intro mult_right_mono) (simp_all add: rd_eighth)
  then have c13: "c1 \<le> c3"
    unfolding c1_def c3_def by (rule rd_mono)
  from l seventh2 have "rd (2 / 7) * l \<le> 1 * 1"
    by (intro mult_mono) simp_all
  then have "c2 \<le> rd 1"
    unfolding c2_def by (simp add: rd_mono)
  then have c2_up: "c2 \<le> 1"
    by (simp only: rd_one)
  from l seventh have "rd (1 / 7) * l \<le> 1 * 1"
    by (intro mult_mono) simp_all
  then have "c3 \<le> rd 1"
    unfolding c3_def by (simp add: rd_mono)
  then have c3_up: "c3 \<le> 1"
    by (simp only: rd_one)
  from c1_low c12 c13 have pos: "0 < c1" "0 < c2" "0 < c3"
    by linarith+
  have first: "0 \<le> rd (rd 0 + rd c) \<and> rd (rd 0 + rd c) \<le> 1" if "0 \<le> c" "c \<le> 1" for c
  proof -
    from that have "0 \<le> rd c \<and> rd c \<le> 1"
      by (rule rd_unit)
    then have "0 \<le> rd 0 + rd c" and "rd 0 + rd c \<le> 1"
      by (simp_all add: rd_0)
    then show ?thesis
      by (rule rd_unit)
  qed
  have a1: "dadd (Fin 0) (Fin c1) = Fin (rd (rd 0 + rd c1))"
    using pos c1_up by (intro dadd_small) simp_all
  have a2: "dadd (Fin 0) (Fin c2) = Fin (rd (rd 0 + rd c2))"
    using pos c2_up by (intro dadd_small) simp_all
  have b1: "dadd (Fin (rd (rd 0 + rd c1))) (Fin c1) = Fin s1"
    unfolding s1_def using first [of c1] pos c1_up by (intro dadd_small) simp_all
  have b2: "dadd (Fin (rd (rd 0 + rd c2))) (Fin c3) = Fin s2"
    unfolding s2_def using first [of c2] pos c2_up c3_up by (intro dadd_small) simp_all
  have sum1: "docSum refWords (tfidf ! Suc 0) = Fin s1"
    unfolding docSum_def tfidf_def refWords_def Docs_refWords
    using pos by (simp add: Docs_cells m1 a1 b1 truthy_def)
  have sum2: "docSum refWords (tfidf ! 2) = Fin s2"
    unfolding docSum_def tfidf_def refWords_def Docs_refWords
    using pos by (simp add: Docs_cells m2 m3 a2 b2 truthy_def)
  have sum3: "docSum refWords (tfidf ! 3) = Fin 0"
    unfolding docSum_def tfidf_def refWords_def Docs_refWords
    by (simp add: Docs_cells truthy_def)
  from pos have "0 \<le> rd (rd (rd 0 + rd c1)) + rd c1"
    by (intro add_nonneg_nonneg rd_nonneg) simp_all
  then have s1_nonneg: "0 \<le> s1"
    unfolding s1_def by (rule rd_nonneg)
  from c12 c13 have "rd (rd (rd 0 + rd c1)) + rd c1 \<le> rd (rd (rd 0 + rd c2)) + rd c3"
    by (intro add_mono rd_mono) simp_all
  then have le: "s1 \<le> s2"
    unfolding s1_def s2_def by (rule rd_mono)
  from c1_low have "rd (1 / 64) \<le> rd c1"
    by (rule rd_mono)
  then have r1: "1 / 64 \<le> rd c1"
    by (simp only: sixtyfourth)
  then have "1 / 64 \<le> rd 0 + rd c1"
    by (simp add: rd_0)
  then have "rd (1 / 64) \<le> rd (rd 0 + rd c1)"
    by (rule rd_mono)
  then have "1 / 64 \<le> rd (rd 0 + rd c1)"
    by (simp only: sixtyfourth)
  then have "rd (1 / 64) \<le> rd (rd (rd 0 + rd c1))"
    by (rule rd_mono)
  with r1 have "1 / 32 \<le> rd (rd (rd 0 + rd c1)) + rd c1"
    by (simp add: sixtyfourth)
  then have "rd (1 / 32) \<le> s1"
    unfolding s1_def by (rule rd_mono)
  with le have "0 < s2"
    by (simp add: thirtysecond)
  with sum1 sum2 sum3 s1_nonneg le show ?thesis
    by blast
qed

lemma drop_one_of_four:
  assumes "length xs = 4"
  shows "drop 1 xs = [xs ! 1, xs ! 2, xs ! 3]"
proof -
  from assms obtain a b c d where "xs = [a, b, c, d]"
    by (auto simp add: numeral_eq_Suc length_Suc_conv)
  then show ?thesis
    by simp
qed

subsection \<open>The output of the program\<close>

text \<open>
  The sums of the three candidate documents are \<open>1/8 L + 1/8 L\<close>, \<open>2/7 L + 1/7 L\<close> and 0
  with \<open>L = ln (4/3)\<close>, every product and sum rounded: "an" and "apple" occur in three
  of the four documents, the other two reference words only in the first. Rounding is
  monotone and \<open>1/8\<close> is a double below the doubles nearest to \<open>1/7\<close> and \<open>2/7\<close>, so
  the sum of the second candidate is at least that of the first, and it is positive. The
  third document (index 2) has the largest sum, and its id is 3.
\<close>

lemma main_output_eval: "main_output = 3"
proof -
  define refWords where "refWords = getUniqueWords (Docs ! 0)"
  define tfidf
    where "tfidf = computeTFIDF refWords (computeTF refWords Docs) (computeIDF refWords Docs)"
  have "length tfidf = 4"
    by (simp add: tfidf_def computeTFIDF_def computeTF_def Docs_length)
  then have rows: "drop 1 tfidf = [tfidf ! 1, tfidf ! 2, tfidf ! 3]"
    by (rule drop_one_of_four)
  have "\<exists>s1 s2. docSum refWords (tfidf ! Suc 0) = Fin s1 \<and> docSum refWords (tfidf ! 2) = Fin s2 \<and>
           docSum refWords (tfidf ! 3) = Fin 0 \<and> 0 \<le> s1 \<and> s1 \<le> s2 \<and> 0 < s2"
    unfolding refWords_def tfidf_def by (rule Docs_sums)
  then obtain s1 s2
    where sums: "docSum refWords (tfidf ! Suc 0) = Fin s1" "docSum refWords (tfidf ! 2) = Fin s2"
      "docSum refWords (tfidf ! 3) = Fin 0"
      and order: "0 \<le> s1" "s1 \<le> s2" "0 < s2"
    by blast
  have "getMostSimilarDocument refWords tfidf = 3"
    unfolding getMostSimilarDocument_def rows using order
    by (simp add: sums Let_def)
  then show ?thesis
    by (simp add: main_output_def Let_def refWords_def tfidf_def)
qed

text \<open>
  C1, as amended. On the four documents compiled into the program, the integer that main
  writes to standard output is 3.
\<close>

theorem main_output_value: "main_output = 3"
  by (rule main_output_eval)

text \<open>The integer written is not 2, the value expected of the program.\<close>

theorem main_output_counterexample: "main_output \<noteq> 2"
  by (simp add: main_output_eval)

end
